theory Spec2Isabelle
  imports Complex_Main "HOL-Library.Sublist"
begin

section \<open>Python strings and the character classes of the \<open>re\<close> module\<close>

text \<open>
  A Python \<open>str\<close> is a sequence of Unicode code points, so a message is a list of natural
  numbers; \<open>str ''Ksh''\<close> is the Python literal \<open>"Ksh"\<close>.  What the interpreter knows about
  the code points below 128 is fixed and written out here.  What it knows about the others
  (which of them are decimal digits, white space, letters, case variants of an ASCII
  letter, and how \<open>str.lower\<close> rewrites them) comes from the Unicode database of the
  running interpreter; that part is the parameter \<open>u\<close> of every function below, and
  nothing is assumed about it.
\<close>

type_synonym pystr = "nat list"

definition str :: "string \<Rightarrow> pystr" where
  "str s = map of_char s"

record unicode_db =
  uni_decimal :: "nat \<Rightarrow> nat option"
  uni_space :: "nat \<Rightarrow> bool"
  uni_alpha :: "nat \<Rightarrow> bool"
  uni_numeric :: "nat \<Rightarrow> bool"
  uni_caseless :: "nat \<Rightarrow> nat \<Rightarrow> bool"
  uni_lower :: "pystr \<Rightarrow> nat \<Rightarrow> pystr \<Rightarrow> pystr"

definition is_upper_ascii :: "nat \<Rightarrow> bool" where
  "is_upper_ascii c = (65 \<le> c \<and> c \<le> 90)"

definition is_lower_ascii :: "nat \<Rightarrow> bool" where
  "is_lower_ascii c = (97 \<le> c \<and> c \<le> 122)"

definition is_digit_ascii :: "nat \<Rightarrow> bool" where
  "is_digit_ascii c = (48 \<le> c \<and> c \<le> 57)"

definition ascii_lower :: "nat \<Rightarrow> nat" where
  "ascii_lower c = (if is_upper_ascii c then c + 32 else c)"

text \<open>The decimal value of a character of category Nd (\<open>Py_UNICODE_TODECIMAL\<close>).\<close>

definition decimal_of :: "unicode_db \<Rightarrow> nat \<Rightarrow> nat option" where
  "decimal_of u c =
     (if c < 128 then (if is_digit_ascii c then Some (c - 48) else None)
      else (case uni_decimal u c of
              Some d \<Rightarrow> if d < 10 then Some d else None
            | None \<Rightarrow> None))"

text \<open>\<open>\d\<close> of a \<open>str\<close> pattern: any Unicode decimal digit.\<close>

definition is_digit :: "unicode_db \<Rightarrow> nat \<Rightarrow> bool" where
  "is_digit u c = (decimal_of u c \<noteq> None)"

text \<open>
  \<open>\s\<close> of a \<open>str\<close> pattern and \<open>str.strip\<close> (\<open>Py_UNICODE_ISSPACE\<close>): below 128 these
  are tab to carriage return, the four separators 28 to 31, and the space.
\<close>

definition is_space :: "unicode_db \<Rightarrow> nat \<Rightarrow> bool" where
  "is_space u c =
     (if c < 128 then (9 \<le> c \<and> c \<le> 13) \<or> (28 \<le> c \<and> c \<le> 31) \<or> c = 32
      else uni_space u c)"

text \<open>A word character for \<open>\b\<close>: alphanumeric (\<open>Py_UNICODE_ISALNUM\<close>) or the underscore.\<close>

definition is_word :: "unicode_db \<Rightarrow> nat \<Rightarrow> bool" where
  "is_word u c =
     (if c < 128 then is_upper_ascii c \<or> is_lower_ascii c \<or> is_digit_ascii c \<or> c = 95
      else uni_alpha u c \<or> is_digit u c \<or> uni_numeric u c)"

text \<open>
  A literal pattern character \<open>p\<close> against a text character \<open>c\<close>.  Under \<open>re.IGNORECASE\<close>
  an ASCII letter matches both of its cases and the non-ASCII characters the engine
  folds onto it; every other pattern character matches itself only.
\<close>

definition lit_match :: "unicode_db \<Rightarrow> bool \<Rightarrow> nat \<Rightarrow> nat \<Rightarrow> bool" where
  "lit_match u ic p c =
     (if ic \<and> (is_upper_ascii p \<or> is_lower_ascii p)
      then (if c < 128 then ascii_lower c = ascii_lower p
            else uni_caseless u (ascii_lower p) c)
      else c = p)"

datatype cset = Chr nat | Rng nat nat | Digit | Space | AnyChar | Union cset cset

fun in_cset :: "unicode_db \<Rightarrow> bool \<Rightarrow> cset \<Rightarrow> nat \<Rightarrow> bool" where
  "in_cset u ic (Chr p) c = lit_match u ic p c"
| "in_cset u ic (Rng a b) c =
     (if ic then list_ex (\<lambda>p. lit_match u ic p c) [a..<Suc b] else a \<le> c \<and> c \<le> b)"
| "in_cset u ic Digit c = is_digit u c"
| "in_cset u ic Space c = is_space u c"
| "in_cset u ic AnyChar c = (c \<noteq> 10)"
| "in_cset u ic (Union a b) c = (in_cset u ic a c \<or> in_cset u ic b c)"

section \<open>The backtracking matcher behind \<open>re.search\<close>\<close>

text \<open>
  The patterns of the parser use literals, character sets, sequence, alternation, an
  optional group, greedy and lazy repetition of a single character set, one capturing
  group and the word boundary.  \<open>Rep greedy lo hi cs\<close> is \<open>cs{lo,hi}\<close> (\<open>hi = None\<close>: no
  upper bound), lazy when \<open>greedy\<close> is false.
\<close>

datatype regex =
    Eps
  | Atom cset
  | Seq regex regex
  | Alt regex regex
  | Opt regex
  | Rep bool nat "nat option" cset
  | Group regex
  | WordB

text \<open>
  A matcher state: the character before the current position (none at the start of the
  text), the text still to be read, and the text of group 1 once the group has closed.
\<close>

type_synonym mstate = "nat option \<times> pystr \<times> pystr option"

definition word_opt :: "unicode_db \<Rightarrow> nat option \<Rightarrow> bool" where
  "word_opt u p = (case p of None \<Rightarrow> False | Some c \<Rightarrow> is_word u c)"

definition at_boundary :: "unicode_db \<Rightarrow> nat option \<Rightarrow> pystr \<Rightarrow> bool" where
  "at_boundary u p s =
     (word_opt u p \<noteq> word_opt u (case s of [] \<Rightarrow> None | x # _ \<Rightarrow> Some x))"

definition dec_max :: "nat option \<Rightarrow> nat option" where
  "dec_max mx = map_option (\<lambda>n. n - 1) mx"

text \<open>
  Greedy repetition takes one more character whenever it may and tries the rest of the
  pattern from the longest run first; lazy repetition tries the rest of the pattern
  first and takes one more character only when that fails.
\<close>

fun rep_greedy ::
  "(nat \<Rightarrow> bool) \<Rightarrow> nat \<Rightarrow> nat option \<Rightarrow> (mstate \<Rightarrow> 'a option) \<Rightarrow> nat option \<Rightarrow> pystr option \<Rightarrow>
   pystr \<Rightarrow> 'a option" where
  "rep_greedy P lo hi k p g [] = (if lo = 0 then k (p, [], g) else None)"
| "rep_greedy P lo hi k p g (x # xs) =
     (if P x \<and> hi \<noteq> Some 0 then
        (case rep_greedy P (lo - 1) (dec_max hi) k (Some x) g xs of
           Some r \<Rightarrow> Some r
         | None \<Rightarrow> if lo = 0 then k (p, x # xs, g) else None)
      else if lo = 0 then k (p, x # xs, g) else None)"

fun rep_lazy ::
  "(nat \<Rightarrow> bool) \<Rightarrow> nat \<Rightarrow> nat option \<Rightarrow> (mstate \<Rightarrow> 'a option) \<Rightarrow> nat option \<Rightarrow> pystr option \<Rightarrow>
   pystr \<Rightarrow> 'a option" where
  "rep_lazy P lo hi k p g [] = (if lo = 0 then k (p, [], g) else None)"
| "rep_lazy P lo hi k p g (x # xs) =
     (case (if lo = 0 then k (p, x # xs, g) else None) of
        Some r \<Rightarrow> Some r
      | None \<Rightarrow>
          if P x \<and> hi \<noteq> Some 0
          then rep_lazy P (lo - 1) (dec_max hi) k (Some x) g xs
          else None)"

text \<open>
  \<open>rmatch u ic r k st\<close> runs \<open>r\<close> from state \<open>st\<close> and hands every state in which \<open>r\<close> can
  end to the continuation \<open>k\<close>, in the engine's order of preference, until \<open>k\<close> accepts
  one; \<open>ic\<close> is the flag \<open>re.IGNORECASE\<close>.
\<close>

fun rmatch :: "unicode_db \<Rightarrow> bool \<Rightarrow> regex \<Rightarrow> (mstate \<Rightarrow> 'a option) \<Rightarrow> mstate \<Rightarrow> 'a option" where
  "rmatch u ic Eps k st = k st"
| "rmatch u ic (Atom cs) k (p, s, g) =
     (case s of
        [] \<Rightarrow> None
      | x # xs \<Rightarrow> if in_cset u ic cs x then k (Some x, xs, g) else None)"
| "rmatch u ic (Seq r1 r2) k st = rmatch u ic r1 (rmatch u ic r2 k) st"
| "rmatch u ic (Alt r1 r2) k st =
     (case rmatch u ic r1 k st of Some r \<Rightarrow> Some r | None \<Rightarrow> rmatch u ic r2 k st)"
| "rmatch u ic (Opt r) k st =
     (case rmatch u ic r k st of Some r \<Rightarrow> Some r | None \<Rightarrow> k st)"
| "rmatch u ic (Rep greedy lo hi cs) k (p, s, g) =
     (if greedy then rep_greedy (in_cset u ic cs) lo hi k p g s
      else rep_lazy (in_cset u ic cs) lo hi k p g s)"
| "rmatch u ic (Group r) k (p, s, g) =
     rmatch u ic r (\<lambda>(p', s', g'). k (p', s', Some (take (length s - length s') s))) (p, s, g)"
| "rmatch u ic WordB k (p, s, g) = (if at_boundary u p s then k (p, s, g) else None)"

text \<open>
  \<open>re.search\<close>: the first start position, from the left, at which the pattern matches;
  the result is the state at the end of the match (\<open>group1\<close> reads \<open>match.group(1)\<close>).
\<close>

fun search_from :: "unicode_db \<Rightarrow> bool \<Rightarrow> regex \<Rightarrow> nat option \<Rightarrow> pystr \<Rightarrow> mstate option" where
  "search_from u ic r p [] = rmatch u ic r Some (p, [], None)"
| "search_from u ic r p (x # xs) =
     (case rmatch u ic r Some (p, x # xs, None) of
        Some st \<Rightarrow> Some st
      | None \<Rightarrow> search_from u ic r (Some x) xs)"

definition re_search :: "unicode_db \<Rightarrow> bool \<Rightarrow> regex \<Rightarrow> pystr \<Rightarrow> mstate option" where
  "re_search u ic r s = search_from u ic r None s"

definition group1 :: "mstate \<Rightarrow> pystr option" where
  "group1 st = snd (snd st)"

text \<open>Writing patterns: a literal string, and a sequence of parts.\<close>

definition lit :: "string \<Rightarrow> regex" where
  "lit s = foldr (\<lambda>c r. Seq (Atom (Chr (of_char c))) r) s Eps"

definition cat :: "regex list \<Rightarrow> regex" where
  "cat rs = foldr Seq rs Eps"

section \<open>The builtin \<open>float\<close> on strings\<close>

text \<open>
  A Python \<open>float\<close> is an IEEE 754 double: a finite value (kept here as the rational number
  it denotes, the two zeros identified), an infinity, or a NaN.
\<close>

datatype pyfloat = Finite rat | PosInf | NegInf | NaN

datatype py_error = ValueError | AttributeError

fun bitlen :: "nat \<Rightarrow> nat" where
  "bitlen n = (if n = 0 then 0 else Suc (bitlen (n div 2)))"

declare bitlen.simps [simp del]

text \<open>\<open>floor_log2 p q\<close> is the integer \<open>e\<close> with \<open>2^e \<le> p/q < 2^(e+1)\<close>, for positive \<open>p\<close>, \<open>q\<close>.\<close>

definition floor_log2 :: "nat \<Rightarrow> nat \<Rightarrow> int" where
  "floor_log2 p q =
     (let k = int (bitlen p) - int (bitlen q) in
      if (if 0 \<le> k then q * 2 ^ nat k \<le> p else q \<le> p * 2 ^ nat (- k)) then k else k - 1)"

definition round_half_even :: "nat \<Rightarrow> nat \<Rightarrow> nat" where
  "round_half_even a b =
     (let m = a div b; r = a mod b in
      if 2 * r < b then m else if b < 2 * r then m + 1 else if even m then m else m + 1)"

text \<open>
  The double nearest to \<open>p/q\<close> (ties to even): 53 significant bits, the unit in the last
  place never below \<open>2^-1074\<close>, and infinity once the rounded value reaches \<open>2^1024\<close>.
  This is the correctly rounded conversion \<open>float\<close> performs on a decimal string.
\<close>

definition round_double :: "nat \<Rightarrow> nat \<Rightarrow> pyfloat" where
  "round_double p q =
     (if p = 0 then Finite 0
      else
        let t = max (floor_log2 p q - 52) (- 1074) in
        if 0 \<le> t then
          (let v = round_half_even p (q * 2 ^ nat t) * 2 ^ nat t in
           if 2 ^ 1024 \<le> v then PosInf else Finite (of_nat v))
        else Finite (of_nat (round_half_even (p * 2 ^ nat (- t)) q) / of_nat (2 ^ nat (- t))))"

text \<open>The double nearest to \<open>n * 10^x\<close>.\<close>

definition scale10 :: "nat \<Rightarrow> int \<Rightarrow> pyfloat" where
  "scale10 n x = (if 0 \<le> x then round_double (n * 10 ^ nat x) 1 else round_double n (10 ^ nat (- x)))"

fun negate :: "bool \<Rightarrow> pyfloat \<Rightarrow> pyfloat" where
  "negate False v = v"
| "negate True (Finite r) = Finite (- r)"
| "negate True PosInf = NegInf"
| "negate True NegInf = PosInf"
| "negate True NaN = NaN"

text \<open>
  Before parsing, \<open>float\<close> rewrites the string to ASCII: every Unicode white space
  becomes a space, every Unicode decimal digit its ASCII digit, any other character
  from 127 on a question mark (which no number contains).
\<close>

definition to_ascii :: "unicode_db \<Rightarrow> nat \<Rightarrow> nat" where
  "to_ascii u c =
     (if c < 127 then c
      else if is_space u c then 32
      else (case decimal_of u c of Some d \<Rightarrow> 48 + d | None \<Rightarrow> 63))"

text \<open>White space for the C function \<open>isspace\<close>, by which \<open>float\<close> strips both ends.\<close>

definition is_space_c :: "nat \<Rightarrow> bool" where
  "is_space_c c = ((9 \<le> c \<and> c \<le> 13) \<or> c = 32)"

definition strip_c :: "pystr \<Rightarrow> pystr" where
  "strip_c s = rev (dropWhile is_space_c (rev (dropWhile is_space_c s)))"

text \<open>An underscore is allowed between two digits only, and is dropped.\<close>

fun strip_underscores :: "nat \<Rightarrow> pystr \<Rightarrow> pystr option" where
  "strip_underscores prev [] = (if prev = 95 then None else Some [])"
| "strip_underscores prev (c # cs) =
     (if c = 95 then (if is_digit_ascii prev then strip_underscores c cs else None)
      else if prev = 95 \<and> \<not> is_digit_ascii c then None
      else map_option ((#) c) (strip_underscores c cs))"

text \<open>The number a string of ASCII digits denotes.\<close>

definition digits_val :: "pystr \<Rightarrow> nat" where
  "digits_val ds = foldl (\<lambda>a c. 10 * a + (c - 48)) 0 ds"

text \<open>An optional leading sign; true for minus.\<close>

definition split_sign :: "pystr \<Rightarrow> bool \<times> pystr" where
  "split_sign s =
     (case s of
        [] \<Rightarrow> (False, [])
      | c # cs \<Rightarrow> if c = 45 then (True, cs) else if c = 43 then (False, cs) else (False, s))"

definition parse_exponent :: "pystr \<Rightarrow> int option" where
  "parse_exponent s =
     (case s of
        [] \<Rightarrow> Some 0
      | c # cs \<Rightarrow>
          if c = 101 \<or> c = 69 then
            (case split_sign cs of
               (neg, ds) \<Rightarrow>
                 if ds \<noteq> [] \<and> list_all is_digit_ascii ds
                 then Some (if neg then - int (digits_val ds) else int (digits_val ds))
                 else None)
          else None)"

text \<open>
  The number grammar: digits, an optional point with digits, an optional exponent; at
  least one digit before the exponent; nothing may be left over.  The result is the
  digit string as a number and the power of ten it is scaled by.
\<close>

definition parse_unsigned :: "pystr \<Rightarrow> (nat \<times> int) option" where
  "parse_unsigned s =
     (let ip = takeWhile is_digit_ascii s;
          r1 = dropWhile is_digit_ascii s;
          fp = (case r1 of [] \<Rightarrow> [] | c # cs \<Rightarrow> if c = 46 then takeWhile is_digit_ascii cs else []);
          r2 = (case r1 of [] \<Rightarrow> [] | c # cs \<Rightarrow> if c = 46 then dropWhile is_digit_ascii cs else r1)
      in if ip @ fp = [] then None
         else (case parse_exponent r2 of
                 None \<Rightarrow> None
               | Some e \<Rightarrow> Some (digits_val (ip @ fp), e - int (length fp))))"

text \<open>Comparison with a lower-case word, ignoring ASCII case.\<close>

definition lower_eq :: "pystr \<Rightarrow> string \<Rightarrow> bool" where
  "lower_eq s w = (map ascii_lower s = str w)"

text \<open>\<open>float(s)\<close> for a string \<open>s\<close>: the value, or \<open>ValueError\<close>.\<close>

definition py_float :: "unicode_db \<Rightarrow> pystr \<Rightarrow> py_error + pyfloat" where
  "py_float u s =
     (case strip_underscores 0 (strip_c (map (to_ascii u) s)) of
        None \<Rightarrow> Inl ValueError
      | Some t \<Rightarrow>
          (case split_sign t of
             (neg, body) \<Rightarrow>
               if lower_eq body ''inf'' \<or> lower_eq body ''infinity''
               then Inr (negate neg PosInf)
               else if lower_eq body ''nan'' then Inr NaN
               else (case parse_unsigned body of
                       None \<Rightarrow> Inl ValueError
                     | Some (n, x) \<Rightarrow> Inr (negate neg (scale10 n x)))))"

section \<open>The parser: \<open>app/parser.py\<close>\<close>

datatype trans_type =
  SENT | RECEIVED | WITHDRAWN | BOUGHT | BALANCE | REVERSED | PAYBILL | UNKNOWN

text \<open>\<open>MpesaParser.TRANSACTION_TYPES\<close>, in the order the dictionary literal declares it.\<close>

definition TRANSACTION_TYPES :: "(trans_type \<times> pystr list) list" where
  "TRANSACTION_TYPES =
     [(SENT, [str ''you have sent'', str ''sent to'', str ''paid to'', str ''transferred to'']),
      (RECEIVED, [str ''you have received'', str ''received from'']),
      (WITHDRAWN, [str ''withdraw'', str ''withdrawn from'']),
      (BOUGHT, [str ''bought'', str ''airtime for'']),
      (BALANCE, [str ''balance was'', str ''your balance is'']),
      (REVERSED, [str ''reversed'', str ''transaction reversed'']),
      (PAYBILL, [str ''paid to'', str ''for account''])]"

text \<open>The capture \<open>([\d,]+\.?\d*)\<close> shared by the amount and balance patterns.\<close>

definition money_group :: regex where
  "money_group =
     Group (cat [Rep True 1 None (Union Digit (Chr 44)),
                 Rep True 0 (Some 1) (Chr 46),
                 Rep True 0 None Digit])"

definition amount_patterns :: "regex list" where
  "amount_patterns =
     [cat [lit ''Ksh'', Rep True 0 None Space, money_group],
      cat [lit ''KES'', Rep True 0 None Space, money_group],
      cat [lit ''amount'', Rep True 1 None Space,
           Opt (cat [lit ''of'', Rep True 1 None Space]),
           lit ''Ksh'', Rep True 0 None Space, money_group]]"

definition code_pattern :: regex where
  "code_pattern =
     cat [WordB,
          Group (cat [Rep True 2 (Some 2) (Rng 65 90),
                      Rep True 2 (Some 2) Digit,
                      Rep True 5 (Some 6) (Union (Rng 65 90) (Rng 48 57))]),
          WordB]"

definition balance_patterns :: "regex list" where
  "balance_patterns =
     [cat [lit ''balance '', Alt (lit ''is'') (lit ''was''), Rep True 1 None Space,
           lit ''Ksh'', Rep True 0 None Space, money_group],
      cat [lit ''New'', Rep False 0 None AnyChar, lit ''balance'', Rep False 0 None AnyChar,
           lit ''Ksh'', Rep True 0 None Space, money_group],
      cat [lit ''balance'', Rep False 0 None AnyChar,
           lit ''Ksh'', Rep True 0 None Space, money_group]]"

text \<open>The directional phrases \<open>(?:sent to|paid to|received from)\<close>.\<close>

definition directional :: regex where
  "directional = Alt (lit ''sent to'') (Alt (lit ''paid to'') (lit ''received from''))"

definition recipient_patterns :: "regex list" where
  "recipient_patterns =
     [cat [directional, Rep True 1 None Space,
           Group (Rep False 1 None (Union (Rng 65 90) Space)),
           Alt (cat [Rep True 1 None Space, Atom Digit])
            (Alt (cat [Rep True 1 None Space, lit ''on''])
              (Alt (cat [Rep True 1 None Space, lit ''Ksh'']) (Atom (Chr 46))))],
      cat [directional, Rep True 1 None Space, Group (Rep True 1 None Digit)]]"

definition replace_commas :: "pystr \<Rightarrow> pystr" where
  "replace_commas s = filter (\<lambda>c. c \<noteq> 44) s"

text \<open>
  The loop of \<open>extract_amount\<close> and of \<open>extract_balance\<close> (the two bodies are the same
  but for the pattern list): search each pattern in turn with \<open>re.IGNORECASE\<close>; on a
  match convert group 1, commas removed; a \<open>ValueError\<close> goes on to the next pattern,
  any other exception leaves the function.
\<close>

fun money_loop :: "unicode_db \<Rightarrow> regex list \<Rightarrow> pystr \<Rightarrow> py_error + pyfloat option" where
  "money_loop u [] message = Inr None"
| "money_loop u (pattern # patterns) message =
     (case re_search u True pattern message of
        None \<Rightarrow> money_loop u patterns message
      | Some mt \<Rightarrow>
          (case group1 mt of
             None \<Rightarrow> Inl AttributeError
           | Some text \<Rightarrow>
               (case py_float u (replace_commas text) of
                  Inr v \<Rightarrow> Inr (Some v)
                | Inl ValueError \<Rightarrow> money_loop u patterns message
                | Inl e \<Rightarrow> Inl e)))"

definition extract_amount :: "unicode_db \<Rightarrow> pystr \<Rightarrow> py_error + pyfloat option" where
  "extract_amount u message = money_loop u amount_patterns message"

definition extract_balance :: "unicode_db \<Rightarrow> pystr \<Rightarrow> py_error + pyfloat option" where
  "extract_balance u message = money_loop u balance_patterns message"

definition extract_transaction_code :: "unicode_db \<Rightarrow> pystr \<Rightarrow> pystr option" where
  "extract_transaction_code u message =
     (case re_search u False code_pattern message of
        None \<Rightarrow> None
      | Some mt \<Rightarrow> group1 mt)"

definition py_strip :: "unicode_db \<Rightarrow> pystr \<Rightarrow> pystr" where
  "py_strip u s = rev (dropWhile (is_space u) (rev (dropWhile (is_space u) s)))"

fun recipient_loop :: "unicode_db \<Rightarrow> regex list \<Rightarrow> pystr \<Rightarrow> py_error + pystr option" where
  "recipient_loop u [] message = Inr None"
| "recipient_loop u (pattern # patterns) message =
     (case re_search u True pattern message of
        None \<Rightarrow> recipient_loop u patterns message
      | Some mt \<Rightarrow>
          (case group1 mt of
             None \<Rightarrow> Inl AttributeError
           | Some text \<Rightarrow> Inr (Some (py_strip u text))))"

definition extract_recipient :: "unicode_db \<Rightarrow> pystr \<Rightarrow> py_error + pystr option" where
  "extract_recipient u message = recipient_loop u recipient_patterns message"

text \<open>
  \<open>str.lower\<close> works character by character: an ASCII character becomes its lower case,
  any other character is rewritten by the Unicode database, which may look at the
  characters around it and may give several characters.
\<close>

fun py_lower_from :: "unicode_db \<Rightarrow> pystr \<Rightarrow> pystr \<Rightarrow> pystr" where
  "py_lower_from u pre [] = []"
| "py_lower_from u pre (c # cs) =
     (if c < 128 then [ascii_lower c] else uni_lower u pre c cs)
     @ py_lower_from u (pre @ [c]) cs"

definition py_lower :: "unicode_db \<Rightarrow> pystr \<Rightarrow> pystr" where
  "py_lower u s = py_lower_from u [] s"

text \<open>\<open>keyword in text\<close> on strings.\<close>

fun py_in :: "pystr \<Rightarrow> pystr \<Rightarrow> bool" where
  "py_in k [] = (k = [])"
| "py_in k (x # xs) = (prefix k (x # xs) \<or> py_in k xs)"

fun first_type :: "(trans_type \<times> pystr list) list \<Rightarrow> pystr \<Rightarrow> trans_type" where
  "first_type [] message_lower = UNKNOWN"
| "first_type ((trans_type, keywords) # rest) message_lower =
     (if list_ex (\<lambda>keyword. py_in keyword message_lower) keywords then trans_type
      else first_type rest message_lower)"

definition determine_transaction_type :: "unicode_db \<Rightarrow> pystr \<Rightarrow> trans_type" where
  "determine_transaction_type u message = first_type TRANSACTION_TYPES (py_lower u message)"

record parsed_transaction =
  sender :: pystr
  raw_message :: pystr
  transaction_type :: trans_type
  amount :: "pyfloat option"
  transaction_code :: "pystr option"
  balance :: "pyfloat option"
  recipient :: "pystr option"
  timestamp :: nat
  parsed_successfully :: bool

text \<open>
  \<open>MpesaParser.parse\<close>; \<open>now\<close> is what \<open>datetime.utcnow()\<close> returns.  An exception raised
  by an extractor leaves \<open>parse\<close> as \<open>Inl\<close>.
\<close>

definition parse :: "unicode_db \<Rightarrow> nat \<Rightarrow> pystr \<Rightarrow> pystr \<Rightarrow> py_error + parsed_transaction" where
  "parse u now sender_id message =
     (let ttype = determine_transaction_type u message in
      case extract_amount u message of
        Inl e \<Rightarrow> Inl e
      | Inr amt \<Rightarrow>
          (let code = extract_transaction_code u message in
           case extract_balance u message of
             Inl e \<Rightarrow> Inl e
           | Inr bal \<Rightarrow>
               (case extract_recipient u message of
                  Inl e \<Rightarrow> Inl e
                | Inr rcp \<Rightarrow>
                    Inr \<lparr> sender = sender_id, raw_message = message,
                          transaction_type = ttype, amount = amt,
                          transaction_code = code, balance = bal, recipient = rcp,
                          timestamp = now,
                          parsed_successfully = (amt \<noteq> None \<and> code \<noteq> None) \<rparr>)))"

section \<open>Every way a pattern can match\<close>

text \<open>
  \<open>runs u ic r st\<close> lists the states in which \<open>r\<close> can end when started in \<open>st\<close>, most
  preferred first.  The matcher hands exactly these states to its continuation, in
  this order (lemma \<open>rmatch_runs\<close>), so a statement about what \<open>re.search\<close> finds
  can be proved from the list.
\<close>

text \<open>The first answer a continuation gives along a list of states.\<close>

fun first_some :: "('s \<Rightarrow> 'a option) \<Rightarrow> 's list \<Rightarrow> 'a option" where
  "first_some k [] = None"
| "first_some k (x # xs) = (case k x of Some r \<Rightarrow> Some r | None \<Rightarrow> first_some k xs)"

text \<open>The runs of a repetition: the longest first when greedy, the shortest first when lazy.\<close>

fun rep_runs ::
  "bool \<Rightarrow> (nat \<Rightarrow> bool) \<Rightarrow> nat \<Rightarrow> nat option \<Rightarrow> nat option \<Rightarrow> pystr option \<Rightarrow> pystr \<Rightarrow> mstate list" where
  "rep_runs greedy P lo hi p g [] = (if lo = 0 then [(p, [], g)] else [])"
| "rep_runs greedy P lo hi p g (x # xs) =
     (let here = (if lo = 0 then [(p, x # xs, g)] else []);
          more = (if P x \<and> hi \<noteq> Some 0
                  then rep_runs greedy P (lo - 1) (dec_max hi) (Some x) g xs else [])
      in if greedy then more @ here else here @ more)"

fun runs :: "unicode_db \<Rightarrow> bool \<Rightarrow> regex \<Rightarrow> mstate \<Rightarrow> mstate list" where
  "runs u ic Eps st = [st]"
| "runs u ic (Atom cs) (p, s, g) =
     (case s of [] \<Rightarrow> [] | x # xs \<Rightarrow> if in_cset u ic cs x then [(Some x, xs, g)] else [])"
| "runs u ic (Seq r1 r2) st = concat (map (runs u ic r2) (runs u ic r1 st))"
| "runs u ic (Alt r1 r2) st = runs u ic r1 st @ runs u ic r2 st"
| "runs u ic (Opt r) st = runs u ic r st @ [st]"
| "runs u ic (Rep greedy lo hi cs) (p, s, g) = rep_runs greedy (in_cset u ic cs) lo hi p g s"
| "runs u ic (Group r) (p, s, g) =
     map (\<lambda>(p', s', g'). (p', s', Some (take (length s - length s') s))) (runs u ic r (p, s, g))"
| "runs u ic WordB (p, s, g) = (if at_boundary u p s then [(p, s, g)] else [])"

text \<open>
  A case-insensitive occurrence of a word in a text, as the engine compares characters
  under \<open>re.IGNORECASE\<close>.
\<close>

fun ci_prefix :: "unicode_db \<Rightarrow> pystr \<Rightarrow> pystr \<Rightarrow> bool" where
  "ci_prefix u [] s = True"
| "ci_prefix u (p # ps) [] = False"
| "ci_prefix u (p # ps) (c # cs) = (lit_match u True p c \<and> ci_prefix u ps cs)"

fun ci_occurs :: "unicode_db \<Rightarrow> pystr \<Rightarrow> pystr \<Rightarrow> bool" where
  "ci_occurs u w [] = ci_prefix u w []"
| "ci_occurs u w (c # cs) = (ci_prefix u w (c # cs) \<or> ci_occurs u w cs)"

text \<open>The character before the position reached after reading \<open>w\<close>.\<close>

definition prev_char :: "nat option \<Rightarrow> pystr \<Rightarrow> nat option" where
  "prev_char p w = (if w = [] then p else Some (last w))"

text \<open>A repetition count within the upper bound of a repetition.\<close>

definition at_most :: "nat option \<Rightarrow> nat \<Rightarrow> bool" where
  "at_most hi n = (case hi of None \<Rightarrow> True | Some h \<Rightarrow> n \<le> h)"

text \<open>
  A Unicode database in which no character from 128 on is a digit, a space, a letter
  or a case variant, and \<open>str.lower\<close> leaves such characters alone; the examples below
  are evaluated with it.
\<close>

definition ascii_db :: unicode_db where
  "ascii_db =
     \<lparr> uni_decimal = (\<lambda>c. None), uni_space = (\<lambda>c. False), uni_alpha = (\<lambda>c. False),
       uni_numeric = (\<lambda>c. False), uni_caseless = (\<lambda>p c. False),
       uni_lower = (\<lambda>pre c post. [c]) \<rparr>"

text \<open>The record of a message in which nothing is found.\<close>

definition nothing_found :: "pystr \<Rightarrow> pystr \<Rightarrow> parsed_transaction" where
  "nothing_found sender_id message =
     \<lparr> sender = sender_id, raw_message = message, transaction_type = UNKNOWN,
       amount = None, transaction_code = None, balance = None, recipient = None,
       timestamp = 0, parsed_successfully = False \<rparr>"



text \<open>A text that equals a word character by character, as the engine compares under \<open>re.IGNORECASE\<close>.\<close>

definition ci_eq :: "unicode_db \<Rightarrow> pystr \<Rightarrow> pystr \<Rightarrow> bool" where
  "ci_eq u w x = list_all2 (lit_match u True) w x"

text \<open>What \<open>([\d,]+\.?\d*)\<close> can capture: a non-empty text of decimal digits, commas and points.\<close>

definition money_text :: "unicode_db \<Rightarrow> pystr \<Rightarrow> bool" where
  "money_text u t = (t \<noteq> [] \<and> list_all (\<lambda>c. is_digit u c \<or> c = 44 \<or> c = 46) t)"

text \<open>The end of every amount and balance pattern: the currency marker, optional white space, the capture.\<close>

definition money_tail :: "string \<Rightarrow> regex" where
  "money_tail K = cat [lit K, Rep True 0 None Space, money_group]"

text \<open>A float that is not negative and not a NaN: a finite value from zero up, or plus infinity.\<close>

definition non_negative :: "pyfloat \<Rightarrow> bool" where
  "non_negative v = (case v of Finite q \<Rightarrow> 0 \<le> q | PosInf \<Rightarrow> True | NegInf \<Rightarrow> False | NaN \<Rightarrow> False)"

text \<open>A float that is neither an infinity nor a NaN.\<close>

definition is_finite :: "pyfloat \<Rightarrow> bool" where
  "is_finite v = (case v of Finite q \<Rightarrow> True | PosInf \<Rightarrow> False | NegInf \<Rightarrow> False | NaN \<Rightarrow> False)"

text \<open>Every match of the pattern, from any state, closes group 1 on such a text.\<close>

definition captures_money :: "unicode_db \<Rightarrow> regex \<Rightarrow> bool" where
  "captures_money u r =
     (\<forall>p s g st. st \<in> set (runs u True r (p, s, g)) \<longrightarrow> (\<exists>t. group1 st = Some t \<and> money_text u t))"

text \<open>Whether every match of a pattern closes group 1.\<close>

fun sets_group :: "regex \<Rightarrow> bool" where
  "sets_group (Seq r1 r2) = (sets_group r1 \<or> sets_group r2)"
| "sets_group (Alt r1 r2) = (sets_group r1 \<and> sets_group r2)"
| "sets_group (Group r) = True"
| "sets_group r = False"

text \<open>The ASCII characters a captured text can become inside \<open>float\<close>: space, point, digit.\<close>

definition plain_char :: "nat \<Rightarrow> bool" where
  "plain_char c = (c = 32 \<or> c = 46 \<or> is_digit_ascii c)"

text \<open>A message whose amount is a one followed by 309 zeros.\<close>

definition huge_amount :: pystr where
  "huge_amount = str ''Ksh1000000000000000000000000000000000000000000000000000000000000000000000000000000000000000000000000000000000000000000000000000000000000000000000000000000000000000000000000000000000000000000000000000000000000000000000000000000000000000000000000000000000000000000000000000000000000000000000000000000000000000000000''"

text \<open>The SENT scenario of the specification.\<close>

definition sent_message :: pystr where
  "sent_message = str ''RK12AB34CD confirmed. You have sent Ksh500.00 to JOHN DOE. New M-PESA balance is Ksh1,234.56.''"

text \<open>Every match of the pattern contains the word, compared as under \<open>re.IGNORECASE\<close>.\<close>

definition needs_word :: "unicode_db \<Rightarrow> string \<Rightarrow> regex \<Rightarrow> bool" where
  "needs_word u K r =
     (\<forall>p s g st. st \<in> set (runs u True r (p, s, g)) \<longrightarrow>
        (\<exists>a x b. s = a @ x @ b \<and> ci_eq u (str K) x))"

text \<open>
  What one pattern of a money extractor yields: the converted capture of its first
  match, or nothing when it does not match or the capture does not convert.
\<close>

definition converts :: "unicode_db \<Rightarrow> regex \<Rightarrow> pystr \<Rightarrow> pyfloat option" where
  "converts u pattern message =
     (case re_search u True pattern message of
        None \<Rightarrow> None
      | Some mt \<Rightarrow>
          (case group1 mt of
             None \<Rightarrow> None
           | Some t \<Rightarrow>
               (case py_float u (replace_commas t) of Inr v \<Rightarrow> Some v | Inl e \<Rightarrow> None)))"

text \<open>A message on which the first amount pattern matches but captures a lone comma.\<close>

definition thousand_after_comma :: pystr where
  "thousand_after_comma = str ''Ksh, then KES 1,000''"

definition marker_then_comma :: pystr where
  "marker_then_comma = str ''Ksh,''"

text \<open>
  Every match of the pattern ends with the currency marker "Ksh", optional white
  space and the captured text, whatever comes before.
\<close>

definition ends_with_tail :: "unicode_db \<Rightarrow> regex \<Rightarrow> bool" where
  "ends_with_tail u r =
     (\<forall>p s g st. st \<in> set (runs u True r (p, s, g)) \<longrightarrow>
        (\<exists>gap ksh sp t. s = gap @ ksh @ sp @ t @ fst (snd st) \<and> ci_eq u (str ''Ksh'') ksh
            \<and> list_all (is_space u) sp \<and> money_text u t \<and> group1 st = Some t))"

text \<open>
  Every match of the pattern contains the word "balance" and, after it, the currency
  marker "Ksh", optional white space and the captured text.
\<close>

definition balance_shape :: "unicode_db \<Rightarrow> regex \<Rightarrow> bool" where
  "balance_shape u r =
     (\<forall>p s g st. st \<in> set (runs u True r (p, s, g)) \<longrightarrow>
        (\<exists>pre bal gap ksh sp t. s = pre @ bal @ gap @ ksh @ sp @ t @ fst (snd st)
            \<and> ci_eq u (str ''balance'') bal \<and> ci_eq u (str ''Ksh'') ksh
            \<and> list_all (is_space u) sp \<and> money_text u t \<and> group1 st = Some t))"

text \<open>
  The shape of a transaction code: two upper-case letters, two decimal digits, then
  five or six characters each an upper-case letter or an ASCII digit.
\<close>

definition code_shape :: "unicode_db \<Rightarrow> pystr \<Rightarrow> bool" where
  "code_shape u w =
     ((length w = 9 \<or> length w = 10)
      \<and> list_all is_upper_ascii (take 2 w)
      \<and> list_all (is_digit u) (take 2 (drop 2 w))
      \<and> list_all (\<lambda>c. is_upper_ascii c \<or> is_digit_ascii c) (drop 4 w))"

text \<open>
  The \<open>n\<close> characters from position \<open>i\<close> of \<open>m\<close> stand as a whole word in the sense of
  \<open>\b\<close>: neither neighbour is a word character (a letter, a digit or the underscore).
\<close>

definition whole_word :: "unicode_db \<Rightarrow> pystr \<Rightarrow> nat \<Rightarrow> nat \<Rightarrow> bool" where
  "whole_word u m i n =
     ((i = 0 \<or> \<not> is_word u (m ! (i - 1))) \<and> (i + n = length m \<or> \<not> is_word u (m ! (i + n))))"

text \<open>A code of \<open>n\<close> characters stands at position \<open>i\<close> of \<open>m\<close> as a whole word.\<close>

definition code_at :: "unicode_db \<Rightarrow> pystr \<Rightarrow> nat \<Rightarrow> nat \<Rightarrow> bool" where
  "code_at u m i n =
     (i + n \<le> length m \<and> code_shape u (take n (drop i m)) \<and> whole_word u m i n)"

text \<open>
  The reading of the specification: the code is not part of a longer alphanumeric
  run, that is, neither neighbour is a letter or a digit.
\<close>

definition is_alnum :: "unicode_db \<Rightarrow> nat \<Rightarrow> bool" where
  "is_alnum u c = (is_word u c \<and> c \<noteq> 95)"

definition spec_code_at :: "unicode_db \<Rightarrow> pystr \<Rightarrow> nat \<Rightarrow> nat \<Rightarrow> bool" where
  "spec_code_at u m i n =
     (i + n \<le> length m \<and> code_shape u (take n (drop i m))
      \<and> (i = 0 \<or> \<not> is_alnum u (m ! (i - 1)))
      \<and> (i + n = length m \<or> \<not> is_alnum u (m ! (i + n))))"

text \<open>A code followed by an underscore.\<close>

definition code_underscore :: pystr where
  "code_underscore = str ''RK12AB34CD_''"

text \<open>A code between two spaces.\<close>

definition code_in_text :: pystr where
  "code_in_text = str ''ref RK12AB34CD ok''"

section \<open>Evaluating the parser on a given message\<close>

lemmas char_defs =
  str_def lit_match_def is_upper_ascii_def is_lower_ascii_def is_digit_ascii_def
  ascii_lower_def decimal_of_def is_digit_def is_space_def is_word_def word_opt_def
  at_boundary_def dec_max_def ascii_db_def

lemmas pattern_defs =
  lit_def cat_def money_group_def amount_patterns_def balance_patterns_def code_pattern_def
  directional_def recipient_patterns_def

lemmas search_defs = re_search_def group1_def replace_commas_def py_strip_def

lemmas float_defs =
  py_float_def to_ascii_def strip_c_def is_space_c_def split_sign_def lower_eq_def
  parse_unsigned_def parse_exponent_def digits_val_def

section \<open>The matcher tries exactly the runs, in order\<close>

lemma first_some_single [simp]: "first_some k [x] = k x"
  by (simp split: option.splits)

lemma first_some_append:
  "first_some k (xs @ ys) = (case first_some k xs of Some r \<Rightarrow> Some r | None \<Rightarrow> first_some k ys)"
  by (induction xs) (auto split: option.splits)

lemma first_some_concat:
  "first_some k (concat (map f xs)) = first_some (\<lambda>x. first_some k (f x)) xs"
  by (induction xs) (auto simp: first_some_append split: option.splits)

lemma first_some_map: "first_some k (map f xs) = first_some (\<lambda>x. k (f x)) xs"
  by (induction xs) (auto split: option.splits)

lemma first_some_Some: "first_some Some xs = (case xs of [] \<Rightarrow> None | x # _ \<Rightarrow> Some x)"
  by (cases xs) auto

lemma rep_greedy_runs:
  "rep_greedy P lo hi k p g s = first_some k (rep_runs True P lo hi p g s)"
  by (induction s arbitrary: lo hi p) (auto simp: first_some_append Let_def split: option.splits)

lemma rep_lazy_runs:
  "rep_lazy P lo hi k p g s = first_some k (rep_runs False P lo hi p g s)"
  by (induction s arbitrary: lo hi p) (auto simp: first_some_append Let_def split: option.splits)

lemma rmatch_runs: "rmatch u ic r k st = first_some k (runs u ic r st)"
proof (induction r arbitrary: k st)
  case (Atom cs)
  then show ?case by (cases st) (auto split: list.splits option.splits)
next
  case (Seq r1 r2)
  have "rmatch u ic r2 k = (\<lambda>x. first_some k (runs u ic r2 x))"
    using Seq.IH(2) by blast
  then show ?case by (simp add: Seq.IH(1) first_some_concat)
next
  case (Alt r1 r2)
  then show ?case by (simp add: first_some_append split: option.splits)
next
  case (Opt r)
  then show ?case by (simp add: first_some_append split: option.splits)
next
  case (Rep gr lo hi cs)
  then show ?case by (cases st) (simp add: rep_greedy_runs rep_lazy_runs)
next
  case (Group r)
  obtain p s g where st: "st = (p, s, g)" by (cases st) auto
  show ?case unfolding st by (simp add: Group.IH first_some_map case_prod_unfold)
next
  case WordB
  then show ?case by (cases st) (auto split: option.splits)
qed (simp split: option.splits)

lemma prev_char_snoc: "prev_char (prev_char p a) b = prev_char p (a @ b)"
  by (auto simp: prev_char_def)

lemma search_from_None:
  "search_from u ic r p s = None \<longleftrightarrow>
     (\<forall>a b. s = a @ b \<longrightarrow> runs u ic r (prev_char p a, b, None) = [])"
proof (induction s arbitrary: p)
  case Nil
  then show ?case by (simp add: rmatch_runs first_some_Some prev_char_def split: list.splits)
next
  case (Cons x xs)
  show ?case
  proof
    assume L: "search_from u ic r p (x # xs) = None"
    then have h0: "runs u ic r (p, x # xs, None) = []"
      by (simp add: rmatch_runs first_some_Some split: list.splits option.splits)
    from L have "search_from u ic r (Some x) xs = None"
      by (simp split: option.splits)
    then have h1: "\<And>a b. xs = a @ b \<Longrightarrow> runs u ic r (prev_char (Some x) a, b, None) = []"
      using Cons.IH by blast
    show "\<forall>a b. x # xs = a @ b \<longrightarrow> runs u ic r (prev_char p a, b, None) = []"
    proof (intro allI impI)
      fix a b assume ab: "x # xs = a @ b"
      show "runs u ic r (prev_char p a, b, None) = []"
      proof (cases a)
        case Nil
        then show ?thesis using ab h0 by (simp add: prev_char_def)
      next
        case (Cons y ys)
        then have "xs = ys @ b" "y = x" using ab by auto
        then show ?thesis using h1[of ys b] Cons by (auto simp: prev_char_def)
      qed
    qed
  next
    assume R: "\<forall>a b. x # xs = a @ b \<longrightarrow> runs u ic r (prev_char p a, b, None) = []"
    then have h0: "runs u ic r (p, x # xs, None) = []"
      by (metis append_Nil prev_char_def)
    have "\<And>a b. xs = a @ b \<Longrightarrow> runs u ic r (prev_char (Some x) a, b, None) = []"
    proof -
      fix a b assume "xs = a @ b"
      then have "x # xs = (x # a) @ b" by simp
      then have "runs u ic r (prev_char p (x # a), b, None) = []" using R by blast
      then show "runs u ic r (prev_char (Some x) a, b, None) = []"
        by (auto simp: prev_char_def split: if_splits)
    qed
    then have "search_from u ic r (Some x) xs = None" using Cons.IH by blast
    then show "search_from u ic r p (x # xs) = None"
      using h0 by (simp add: rmatch_runs first_some_Some)
  qed
qed

lemma search_from_Some:
  assumes "search_from u ic r p s = Some st"
  shows "\<exists>a b. s = a @ b \<and> runs u ic r (prev_char p a, b, None) \<noteq> []
           \<and> st = hd (runs u ic r (prev_char p a, b, None))
           \<and> (\<forall>a' b'. s = a' @ b' \<and> length a' < length a
                 \<longrightarrow> runs u ic r (prev_char p a', b', None) = [])"
  using assms
proof (induction s arbitrary: p)
  case Nil
  then show ?case
    by (auto simp: rmatch_runs first_some_Some prev_char_def split: list.splits)
next
  case (Cons x xs)
  show ?case
  proof (cases "runs u ic r (p, x # xs, None)")
    case Nil
    then have "search_from u ic r (Some x) xs = Some st"
      using Cons.prems by (simp add: rmatch_runs first_some_Some)
    then obtain a b where ab: "xs = a @ b" "runs u ic r (prev_char (Some x) a, b, None) \<noteq> []"
      "st = hd (runs u ic r (prev_char (Some x) a, b, None))"
      "\<forall>a' b'. xs = a' @ b' \<and> length a' < length a
                 \<longrightarrow> runs u ic r (prev_char (Some x) a', b', None) = []"
      using Cons.IH by blast
    have pc: "\<And>w. prev_char p (x # w) = prev_char (Some x) w"
      by (auto simp: prev_char_def)
    have early: "\<forall>a' b'. x # xs = a' @ b' \<and> length a' < length (x # a)
                 \<longrightarrow> runs u ic r (prev_char p a', b', None) = []"
    proof (intro allI impI)
      fix a' b' assume h: "x # xs = a' @ b' \<and> length a' < length (x # a)"
      show "runs u ic r (prev_char p a', b', None) = []"
      proof (cases a')
        case Nil
        then show ?thesis using h \<open>runs u ic r (p, x # xs, None) = []\<close>
          by (simp add: prev_char_def)
      next
        case (Cons y ys)
        then have "xs = ys @ b'" "y = x" "length ys < length a" using h by auto
        then show ?thesis using ab(4) Cons pc by auto
      qed
    qed
    show ?thesis
      apply (rule exI[of _ "x # a"], rule exI[of _ b])
      using ab early pc by auto
  next
    case (Cons y ys)
    then have "st = y" using Cons.prems by (simp add: rmatch_runs first_some_Some)
    then have "x # xs = [] @ (x # xs) \<and> runs u ic r (prev_char p [], x # xs, None) \<noteq> []
           \<and> st = hd (runs u ic r (prev_char p [], x # xs, None))
           \<and> (\<forall>a' b'. x # xs = a' @ b' \<and> length a' < length ([]::nat list)
                 \<longrightarrow> runs u ic r (prev_char p a', b', None) = [])"
      using Cons by (simp add: prev_char_def)
    then show ?thesis by blast
  qed
qed

section \<open>The success flag\<close>

text \<open>
  C1.  Whatever the sender and the message, the record \<open>parse\<close> returns has
  \<open>parsed_successfully\<close> true exactly when its amount field and its transaction-code
  field are both present, and those two fields are what the two extractors returned:
  the flag is never set from anything else.
\<close>

theorem parsed_successfully_iff:
  assumes "parse u now sender_id message = Inr r"
  shows "parsed_successfully r = (amount r \<noteq> None \<and> transaction_code r \<noteq> None)
         \<and> extract_amount u message = Inr (amount r)
         \<and> transaction_code r = extract_transaction_code u message"
  using assms by (auto simp: parse_def Let_def split: sum.splits)

lemma parse_hello:
  "parse ascii_db 0 (str ''MPESA'') (str ''Hello'') = Inr (nothing_found (str ''MPESA'') (str ''Hello''))"
  by (simp add: parse_def nothing_found_def extract_amount_def extract_balance_def
      extract_recipient_def extract_transaction_code_def determine_transaction_type_def
      TRANSACTION_TYPES_def py_lower_def char_defs pattern_defs search_defs)

theorem parsed_successfully_iff_witness:
  "parse ascii_db 0 (str ''MPESA'') (str ''Hello'') = Inr (nothing_found (str ''MPESA'') (str ''Hello''))
   \<and> parsed_successfully (nothing_found (str ''MPESA'') (str ''Hello'')) =
       (amount (nothing_found (str ''MPESA'') (str ''Hello'')) \<noteq> None
        \<and> transaction_code (nothing_found (str ''MPESA'') (str ''Hello'')) \<noteq> None)"
  using parsed_successfully_iff [OF parse_hello] parse_hello by blast

section \<open>The classifier\<close>











section \<open>Runs as a relation between states\<close>

lemma at_most_Suc: "at_most hi (Suc n) \<longleftrightarrow> hi \<noteq> Some 0 \<and> at_most (dec_max hi) n"
  by (cases hi) (auto simp: at_most_def dec_max_def)

lemma at_most_0 [simp]: "at_most hi 0"
  by (cases hi) (auto simp: at_most_def)

lemma prev_char_Nil [simp]: "prev_char p [] = p"
  by (simp add: prev_char_def)

lemma prev_char_Cons [simp]: "prev_char p (x # w) = prev_char (Some x) w"
  by (simp add: prev_char_def)

lemma prev_char_append [simp]: "prev_char (prev_char p a) b = prev_char p (a @ b)"
  by (simp add: prev_char_def)

lemma in_rep_runs:
  "(p', s', g') \<in> set (rep_runs gr P lo hi p g s) \<longleftrightarrow>
     (\<exists>x. s = x @ s' \<and> lo \<le> length x \<and> at_most hi (length x) \<and> list_all P x
          \<and> p' = prev_char p x \<and> g' = g)"
proof (induction s arbitrary: lo hi p)
  case Nil
  then show ?case by auto
next
  case (Cons a s)
  have ih: "(p', s', g') \<in> set (rep_runs gr P (lo - 1) (dec_max hi) (Some a) g s) \<longleftrightarrow>
     (\<exists>y. s = y @ s' \<and> lo - 1 \<le> length y \<and> at_most (dec_max hi) (length y) \<and> list_all P y
          \<and> p' = prev_char (Some a) y \<and> g' = g)"
    by (rule Cons.IH)
  have mem: "(p', s', g') \<in> set (rep_runs gr P lo hi p g (a # s)) \<longleftrightarrow>
      (lo = 0 \<and> (p', s', g') = (p, a # s, g))
      \<or> (P a \<and> hi \<noteq> Some 0 \<and> (p', s', g') \<in> set (rep_runs gr P (lo - 1) (dec_max hi) (Some a) g s))"
    by (auto simp: Let_def)
  show ?case
  proof
    assume "(p', s', g') \<in> set (rep_runs gr P lo hi p g (a # s))"
    then consider (here) "lo = 0" "(p', s', g') = (p, a # s, g)"
      | (more) "P a" "hi \<noteq> Some 0" "(p', s', g') \<in> set (rep_runs gr P (lo - 1) (dec_max hi) (Some a) g s)"
      using mem by blast
    then show "\<exists>x. a # s = x @ s' \<and> lo \<le> length x \<and> at_most hi (length x) \<and> list_all P x
          \<and> p' = prev_char p x \<and> g' = g"
    proof cases
      case here
      then have "a # s = [] @ s' \<and> lo \<le> length ([]::nat list) \<and> at_most hi (length ([]::nat list))
          \<and> list_all P [] \<and> p' = prev_char p [] \<and> g' = g" by simp
      then show ?thesis by blast
    next
      case more
      then obtain y where y: "s = y @ s'" "lo - 1 \<le> length y" "at_most (dec_max hi) (length y)"
         "list_all P y" "p' = prev_char (Some a) y" "g' = g"
        using ih by blast
      have "a # s = (a # y) @ s' \<and> lo \<le> length (a # y) \<and> at_most hi (length (a # y))
          \<and> list_all P (a # y) \<and> p' = prev_char p (a # y) \<and> g' = g"
        using y more(1,2) by (auto simp: at_most_Suc)
      then show ?thesis by blast
    qed
  next
    assume "\<exists>x. a # s = x @ s' \<and> lo \<le> length x \<and> at_most hi (length x) \<and> list_all P x
          \<and> p' = prev_char p x \<and> g' = g"
    then obtain x where x: "a # s = x @ s'" "lo \<le> length x" "at_most hi (length x)" "list_all P x"
          "p' = prev_char p x" "g' = g" by blast
    show "(p', s', g') \<in> set (rep_runs gr P lo hi p g (a # s))"
    proof (cases x)
      case Nil
      then show ?thesis using x mem by auto
    next
      case (Cons b y)
      then have "b = a" "s = y @ s'" using x(1) by auto
      then have "P a \<and> hi \<noteq> Some 0 \<and> (p', s', g') \<in> set (rep_runs gr P (lo - 1) (dec_max hi) (Some a) g s)"
        using x Cons ih by (auto simp: at_most_Suc)
      then show ?thesis using mem by blast
    qed
  qed
qed

lemma in_runs_Eps: "st' \<in> set (runs u ic Eps st) \<longleftrightarrow> st' = st"
  by auto

lemma in_runs_Atom:
  "(p', s', g') \<in> set (runs u ic (Atom cs) (p, s, g)) \<longleftrightarrow>
     (\<exists>x. s = x # s' \<and> in_cset u ic cs x \<and> p' = Some x \<and> g' = g)"
  by (auto split: list.splits)

lemma in_runs_Seq:
  "st' \<in> set (runs u ic (Seq r1 r2) st) \<longleftrightarrow>
     (\<exists>st1. st1 \<in> set (runs u ic r1 st) \<and> st' \<in> set (runs u ic r2 st1))"
  by auto

lemma in_runs_Alt:
  "st' \<in> set (runs u ic (Alt r1 r2) st) \<longleftrightarrow>
     st' \<in> set (runs u ic r1 st) \<or> st' \<in> set (runs u ic r2 st)"
  by auto

lemma in_runs_Opt:
  "st' \<in> set (runs u ic (Opt r) st) \<longleftrightarrow> st' \<in> set (runs u ic r st) \<or> st' = st"
  by auto

lemma in_runs_Rep:
  "(p', s', g') \<in> set (runs u ic (Rep gr lo hi cs) (p, s, g)) \<longleftrightarrow>
     (\<exists>x. s = x @ s' \<and> lo \<le> length x \<and> at_most hi (length x) \<and> list_all (in_cset u ic cs) x
          \<and> p' = prev_char p x \<and> g' = g)"
  by (simp add: in_rep_runs)

lemma in_runs_WordB:
  "(p', s', g') \<in> set (runs u ic WordB (p, s, g)) \<longleftrightarrow>
     at_boundary u p s \<and> p' = p \<and> s' = s \<and> g' = g"
  by auto

declare runs.simps [simp del]

lemma runs_suffix:
  "(p', s', g') \<in> set (runs u ic r (p, s, g)) \<Longrightarrow> \<exists>w. s = w @ s' \<and> p' = prev_char p w"
proof (induction r arbitrary: p s g p' s' g')
  case Eps
  then show ?case by (auto simp: in_runs_Eps)
next
  case (Atom cs)
  then have "\<exists>x. s = [x] @ s' \<and> p' = prev_char p [x]" by (auto simp: in_runs_Atom)
  then show ?case by blast
next
  case (Seq r1 r2)
  then obtain p1 s1 g1 where a: "(p1, s1, g1) \<in> set (runs u ic r1 (p, s, g))"
    and b: "(p', s', g') \<in> set (runs u ic r2 (p1, s1, g1))"
    by (auto simp: in_runs_Seq)
  obtain v where v: "s = v @ s1" "p1 = prev_char p v" using Seq.IH(1)[OF a] by blast
  obtain w where w: "s1 = w @ s'" "p' = prev_char p1 w" using Seq.IH(2)[OF b] by blast
  have "s = (v @ w) @ s' \<and> p' = prev_char p (v @ w)" using v w by simp
  then show ?case by blast
next
  case (Alt r1 r2)
  then show ?case by (auto simp: in_runs_Alt)
next
  case (Opt r)
  then show ?case by (auto simp: in_runs_Opt)
next
  case (Rep gr lo hi cs)
  then show ?case by (auto simp: in_runs_Rep)
next
  case (Group r)
  then show ?case by (auto simp: runs.simps)
next
  case WordB
  then show ?case by (auto simp: in_runs_WordB)
qed

lemma in_runs_Group:
  "(p', s', g') \<in> set (runs u ic (Group r) (p, s, g)) \<longleftrightarrow>
     (\<exists>g0 x. (p', s', g0) \<in> set (runs u ic r (p, s, g)) \<and> s = x @ s' \<and> g' = Some x)"
proof
  assume "(p', s', g') \<in> set (runs u ic (Group r) (p, s, g))"
  then obtain g0 where g0: "(p', s', g0) \<in> set (runs u ic r (p, s, g))"
    and g': "g' = Some (take (length s - length s') s)" by (auto simp: runs.simps)
  obtain w where "s = w @ s'" using runs_suffix[OF g0] by blast
  then show "\<exists>g0 x. (p', s', g0) \<in> set (runs u ic r (p, s, g)) \<and> s = x @ s' \<and> g' = Some x"
    using g0 g' by auto
next
  assume "\<exists>g0 x. (p', s', g0) \<in> set (runs u ic r (p, s, g)) \<and> s = x @ s' \<and> g' = Some x"
  then obtain g0 x where "(p', s', g0) \<in> set (runs u ic r (p, s, g))" "s = x @ s'" "g' = Some x"
    by blast
  then show "(p', s', g') \<in> set (runs u ic (Group r) (p, s, g))"
    by (force simp: image_iff runs.simps)
qed

lemma runs_keeps_group:
  "(p', s', g') \<in> set (runs u ic r (p, s, g)) \<Longrightarrow> g \<noteq> None \<Longrightarrow> g' \<noteq> None"
proof (induction r arbitrary: p s g p' s' g')
  case (Seq r1 r2)
  then obtain p1 s1 g1 where a: "(p1, s1, g1) \<in> set (runs u ic r1 (p, s, g))"
    and b: "(p', s', g') \<in> set (runs u ic r2 (p1, s1, g1))"
    by (auto simp: in_runs_Seq)
  show ?case using Seq.IH(2)[OF b] Seq.IH(1)[OF a] Seq.prems(2) by blast
next
  case (Group r)
  then show ?case by (auto simp: in_runs_Group)
qed (auto simp: in_runs_Eps in_runs_Atom in_runs_Alt in_runs_Opt in_runs_Rep in_runs_WordB)

section \<open>What the money patterns capture, and totality\<close>

lemma cat_Nil: "cat [] = Eps"
  by (simp add: cat_def)

lemma cat_Cons: "cat (r # rs) = Seq r (cat rs)"
  by (simp add: cat_def)

lemma lit_Nil: "lit [] = Eps"
  by (simp add: lit_def)

lemma lit_Cons: "lit (c # w) = Seq (Atom (Chr (of_char c))) (lit w)"
  by (simp add: lit_def)

lemma in_runs_lit:
  "(p', s', g') \<in> set (runs u ic (lit w) (p, s, g)) \<longleftrightarrow>
     (\<exists>x. s = x @ s' \<and> list_all2 (lit_match u ic) (str w) x \<and> p' = prev_char p x \<and> g' = g)"
proof (induction w arbitrary: p s)
  case Nil
  then show ?case by (auto simp: lit_Nil in_runs_Eps str_def)
next
  case (Cons c w)
  show ?case
  proof
    assume "(p', s', g') \<in> set (runs u ic (lit (c # w)) (p, s, g))"
    then obtain y s1 where y: "s = y # s1" "lit_match u ic (of_char c) y"
      and r: "(p', s', g') \<in> set (runs u ic (lit w) (Some y, s1, g))"
      by (auto simp: lit_Cons in_runs_Seq in_runs_Atom)
    from r have "\<exists>x. s1 = x @ s' \<and> list_all2 (lit_match u ic) (str w) x
        \<and> p' = prev_char (Some y) x \<and> g' = g"
      using Cons.IH[of "Some y" s1] by simp
    then obtain x where "s1 = x @ s'" "list_all2 (lit_match u ic) (str w) x" "p' = prev_char (Some y) x" "g' = g"
      by (elim exE conjE)
    then have "s = (y # x) @ s' \<and> list_all2 (lit_match u ic) (str (c # w)) (y # x)
        \<and> p' = prev_char p (y # x) \<and> g' = g"
      using y by (simp add: str_def)
    then show "\<exists>x. s = x @ s' \<and> list_all2 (lit_match u ic) (str (c # w)) x \<and> p' = prev_char p x \<and> g' = g"
      by blast
  next
    assume "\<exists>x. s = x @ s' \<and> list_all2 (lit_match u ic) (str (c # w)) x \<and> p' = prev_char p x \<and> g' = g"
    then obtain x where x: "s = x @ s'" "list_all2 (lit_match u ic) (str (c # w)) x" "p' = prev_char p x" "g' = g"
      by blast
    then obtain y x' where yx: "x = y # x'" "lit_match u ic (of_char c) y" "list_all2 (lit_match u ic) (str w) x'"
      by (auto simp: str_def list_all2_Cons1)
    then have "(p', s', g') \<in> set (runs u ic (lit w) (Some y, x' @ s', g))"
      using Cons.IH[of "Some y" "x' @ s'"] x by auto
    then show "(p', s', g') \<in> set (runs u ic (lit (c # w)) (p, s, g))"
      using x yx by (auto simp: lit_Cons in_runs_Seq in_runs_Atom)
  qed
qed

lemma in_cset_Space: "in_cset u ic Space = is_space u"
  by (rule ext) simp

lemma in_cset_Digit: "in_cset u ic Digit = is_digit u"
  by (rule ext) simp

lemma money_group_run:
  assumes "(p', s', g') \<in> set (runs u True money_group (p, s, g))"
  shows "\<exists>text. s = text @ s' \<and> money_text u text \<and> g' = Some text"
proof -
  from assms obtain g0 x where r: "(p', s', g0) \<in> set (runs u True
       (cat [Rep True 1 None (Union Digit (Chr 44)), Rep True 0 (Some 1) (Chr 46), Rep True 0 None Digit])
       (p, s, g))" and x: "s = x @ s'" "g' = Some x"
    by (auto simp: money_group_def in_runs_Group)
  from r obtain a b c where "s = a @ b @ c @ s'" "1 \<le> length a"
     "list_all (in_cset u True (Union Digit (Chr 44))) a"
     "list_all (in_cset u True (Chr 46)) b" "list_all (in_cset u True Digit) c"
    by (auto simp: cat_Cons cat_Nil in_runs_Seq in_runs_Rep in_runs_Eps)
  then have "x = a @ b @ c" "a \<noteq> []"
     "list_all (\<lambda>c. is_digit u c \<or> c = 44 \<or> c = 46) (a @ b @ c)"
    using x by (auto simp: list_all_iff lit_match_def is_upper_ascii_def is_lower_ascii_def)
  then show ?thesis using x by (auto simp: money_text_def)
qed

lemma money_tail_run:
  assumes "(p', s', g') \<in> set (runs u True (money_tail K) (p, s, g))"
  shows "\<exists>ksh sp text. s = ksh @ sp @ text @ s' \<and> ci_eq u (str K) ksh
           \<and> list_all (is_space u) sp \<and> money_text u text \<and> g' = Some text"
proof -
  from assms obtain p1 s1 g1 p2 s2 g2 where
    a: "(p1, s1, g1) \<in> set (runs u True (lit K) (p, s, g))" and
    b: "(p2, s2, g2) \<in> set (runs u True (Rep True 0 None Space) (p1, s1, g1))" and
    c: "(p', s', g') \<in> set (runs u True money_group (p2, s2, g2))"
    by (auto simp: money_tail_def cat_Cons cat_Nil in_runs_Seq in_runs_Eps)
  from a obtain ksh where ksh: "s = ksh @ s1" "ci_eq u (str K) ksh"
    by (auto simp: in_runs_lit ci_eq_def)
  from b obtain sp where sp: "s1 = sp @ s2" "list_all (is_space u) sp"
    by (auto simp: in_runs_Rep in_cset_Space)
  from money_group_run[OF c] obtain t where "s2 = t @ s'" "money_text u t" "g' = Some t"
    by blast
  then have "s = ksh @ sp @ t @ s' \<and> ci_eq u (str K) ksh
           \<and> list_all (is_space u) sp \<and> money_text u t \<and> g' = Some t"
    using ksh sp by simp
  then show ?thesis by blast
qed

lemma round_double_nonneg: "non_negative (round_double p q)"
  by (simp add: round_double_def non_negative_def Let_def)

lemma scale10_nonneg: "non_negative (scale10 n x)"
  by (simp add: scale10_def round_double_nonneg)

lemma py_float_error: "py_float u s = Inl e \<Longrightarrow> e = ValueError"
  by (auto simp: py_float_def split: option.splits prod.splits if_splits)

lemma to_ascii_money:
  assumes "is_digit u c \<or> c = 46"
  shows "to_ascii u c = 32 \<or> to_ascii u c = 46 \<or> is_digit_ascii (to_ascii u c)"
  using assms
  by (auto simp: to_ascii_def is_digit_def decimal_of_def is_digit_ascii_def
      split: if_splits option.splits)

lemma strip_underscores_subset:
  "strip_underscores prev t = Some t' \<Longrightarrow> set t' \<subseteq> set t"
proof (induction t arbitrary: prev t')
  case Nil
  then show ?case by (auto split: if_splits)
next
  case (Cons c t)
  show ?case
  proof (cases "c = 95")
    case True
    then have "strip_underscores c t = Some t'" using Cons.prems by (auto split: if_splits)
    then show ?thesis using Cons.IH by fastforce
  next
    case False
    then obtain t2 where "strip_underscores c t = Some t2" "t' = c # t2"
      using Cons.prems by (auto split: if_splits)
    then show ?thesis using Cons.IH by fastforce
  qed
qed

lemma strip_c_subset: "set (strip_c t) \<subseteq> set t"
proof -
  have "set (strip_c t) \<subseteq> set (dropWhile is_space_c t)"
    unfolding strip_c_def using set_dropWhileD by fastforce
  then show ?thesis using set_dropWhileD by fastforce
qed

lemma plain_not_word:
  assumes "\<forall>c\<in>set t. plain_char c" "t \<noteq> []"
  shows "\<not> lower_eq t w \<or> w = [] \<or> plain_char (of_char (hd w))"
proof (cases w)
  case Nil
  then show ?thesis by simp
next
  case (Cons a w')
  show ?thesis
  proof (cases "lower_eq t w")
    case True
    obtain c t' where t: "t = c # t'" using assms(2) by (cases t) auto
    then have "plain_char c" using assms(1) by simp
    then have "ascii_lower c = c"
      by (auto simp: plain_char_def ascii_lower_def is_upper_ascii_def is_digit_ascii_def)
    then have "of_char a = c" using True t Cons by (simp add: lower_eq_def str_def)
    then show ?thesis using \<open>plain_char c\<close> Cons by simp
  next
    case False
    then show ?thesis by simp
  qed
qed

lemma py_float_plain:
  assumes "\<forall>c\<in>set s. is_digit u c \<or> c = 46"
  shows "py_float u s = Inl ValueError \<or> (\<exists>n x. py_float u s = Inr (scale10 n x))"
proof (cases "strip_underscores 0 (strip_c (map (to_ascii u) s))")
  case None
  then show ?thesis by (simp add: py_float_def)
next
  case (Some t)
  have "\<forall>c\<in>set (map (to_ascii u) s). plain_char c"
    using assms to_ascii_money by (auto simp: plain_char_def)
  then have "\<forall>c\<in>set (strip_c (map (to_ascii u) s)). plain_char c"
    using strip_c_subset by blast
  then have pl: "\<forall>c\<in>set t. plain_char c"
    using strip_underscores_subset[OF Some] by blast
  have sign: "split_sign t = (False, t)"
  proof (cases t)
    case Nil
    then show ?thesis by (simp add: split_sign_def)
  next
    case (Cons c t')
    then have "plain_char c" using pl by simp
    then have "c \<noteq> 45" "c \<noteq> 43" by (auto simp: plain_char_def is_digit_ascii_def)
    then show ?thesis using Cons by (simp add: split_sign_def)
  qed
  have no_word: "\<not> lower_eq t ''inf''" "\<not> lower_eq t ''infinity''" "\<not> lower_eq t ''nan''"
  proof -
    have ne: "lower_eq t w \<Longrightarrow> w \<noteq> [] \<Longrightarrow> t \<noteq> []" for w
      by (auto simp: lower_eq_def str_def)
    show "\<not> lower_eq t ''inf''"
      using plain_not_word[OF pl, of "''inf''"] ne[of "''inf''"]
      by (auto simp: plain_char_def is_digit_ascii_def)
    show "\<not> lower_eq t ''infinity''"
      using plain_not_word[OF pl, of "''infinity''"] ne[of "''infinity''"]
      by (auto simp: plain_char_def is_digit_ascii_def)
    show "\<not> lower_eq t ''nan''"
      using plain_not_word[OF pl, of "''nan''"] ne[of "''nan''"]
      by (auto simp: plain_char_def is_digit_ascii_def)
  qed
  show ?thesis
    using Some sign no_word by (auto simp: py_float_def split: option.splits)
qed

lemma replace_commas_money:
  "money_text u t \<Longrightarrow> \<forall>c\<in>set (replace_commas t). is_digit u c \<or> c = 46"
  by (auto simp: money_text_def replace_commas_def list_all_iff)

lemma py_float_money:
  assumes "money_text u t"
  shows "py_float u (replace_commas t) = Inl ValueError
         \<or> (\<exists>v. py_float u (replace_commas t) = Inr v \<and> non_negative v)"
  using py_float_plain[OF replace_commas_money[OF assms]] scale10_nonneg by metis

lemma re_search_Some:
  assumes "re_search u ic r m = Some st"
  shows "\<exists>a b. m = a @ b \<and> st \<in> set (runs u ic r (prev_char None a, b, None))"
proof -
  obtain a b where "m = a @ b" "runs u ic r (prev_char None a, b, None) \<noteq> []"
    "st = hd (runs u ic r (prev_char None a, b, None))"
    using search_from_Some[OF assms[unfolded re_search_def]] by (elim exE conjE)
  then have "m = a @ b \<and> st \<in> set (runs u ic r (prev_char None a, b, None))" by simp
  then show ?thesis by blast
qed

lemma money_loop_total:
  assumes "\<forall>r\<in>set pats. captures_money u r"
  shows "\<exists>a. money_loop u pats m = Inr a \<and> (\<forall>v. a = Some v \<longrightarrow> non_negative v)"
  using assms
proof (induction pats)
  case Nil
  then show ?case by simp
next
  case (Cons r pats)
  then have ih: "\<exists>a. money_loop u pats m = Inr a \<and> (\<forall>v. a = Some v \<longrightarrow> non_negative v)" by simp
  show ?case
  proof (cases "re_search u True r m")
    case None
    then show ?thesis using ih by simp
  next
    case (Some st)
    obtain a b where "st \<in> set (runs u True r (prev_char None a, b, None))"
      using re_search_Some[OF Some] by (elim exE conjE)
    moreover have "captures_money u r" using Cons.prems by simp
    ultimately have "\<exists>t. group1 st = Some t \<and> money_text u t"
      unfolding captures_money_def by blast
    then obtain t where t: "group1 st = Some t" "money_text u t"
      by (elim exE conjE)
    from py_float_money[OF t(2)] show ?thesis
    proof
      assume "py_float u (replace_commas t) = Inl ValueError"
      then show ?thesis using Some t ih by simp
    next
      assume "\<exists>v. py_float u (replace_commas t) = Inr v \<and> non_negative v"
      then show ?thesis using Some t by auto
    qed
  qed
qed

lemma captures_money_tail: "captures_money u (money_tail K)"
  unfolding captures_money_def
proof (intro allI impI)
  fix p s g st assume a: "st \<in> set (runs u True (money_tail K) (p, s, g))"
  obtain p' s' g' where st: "st = (p', s', g')" by (cases st) auto
  from money_tail_run[OF a[unfolded st]] show "\<exists>t. group1 st = Some t \<and> money_text u t"
    by (auto simp: st group1_def)
qed

lemma captures_money_Seq: "captures_money u r2 \<Longrightarrow> captures_money u (Seq r1 r2)"
  by (auto simp: captures_money_def in_runs_Seq)

lemma amount_patterns_tails:
  "amount_patterns =
     [money_tail ''Ksh'', money_tail ''KES'',
      Seq (lit ''amount'') (Seq (Rep True 1 None Space)
        (Seq (Opt (cat [lit ''of'', Rep True 1 None Space])) (money_tail ''Ksh'')))]"
  by (simp add: amount_patterns_def money_tail_def cat_def)

lemma balance_patterns_tails:
  "balance_patterns =
     [Seq (lit ''balance '') (Seq (Alt (lit ''is'') (lit ''was'')) (Seq (Rep True 1 None Space)
        (money_tail ''Ksh''))),
      Seq (lit ''New'') (Seq (Rep False 0 None AnyChar) (Seq (lit ''balance'')
        (Seq (Rep False 0 None AnyChar) (money_tail ''Ksh'')))),
      Seq (lit ''balance'') (Seq (Rep False 0 None AnyChar) (money_tail ''Ksh''))]"
  by (simp add: balance_patterns_def money_tail_def cat_def)

lemma amount_patterns_money: "\<forall>r\<in>set amount_patterns. captures_money u r"
  by (simp add: amount_patterns_tails captures_money_tail captures_money_Seq)

lemma balance_patterns_money: "\<forall>r\<in>set balance_patterns. captures_money u r"
  by (simp add: balance_patterns_tails captures_money_tail captures_money_Seq)

lemma runs_sets_group:
  "sets_group r \<Longrightarrow> (p', s', g') \<in> set (runs u ic r (p, s, g)) \<Longrightarrow> g' \<noteq> None"
proof (induction r arbitrary: p s g p' s' g')
  case (Seq r1 r2)
  then obtain p1 s1 g1 where a: "(p1, s1, g1) \<in> set (runs u ic r1 (p, s, g))"
    and b: "(p', s', g') \<in> set (runs u ic r2 (p1, s1, g1))"
    by (auto simp: in_runs_Seq)
  show ?case
  proof (cases "sets_group r1")
    case True
    then have "g1 \<noteq> None" using Seq.IH(1)[OF _ a] by simp
    then show ?thesis using runs_keeps_group[OF b] by simp
  next
    case False
    then have "sets_group r2" using Seq.prems(1) by simp
    then show ?thesis using Seq.IH(2)[OF _ b] by simp
  qed
next
  case (Alt r1 r2)
  then show ?case by (auto simp: in_runs_Alt)
next
  case (Group r)
  then show ?case by (auto simp: in_runs_Group)
qed simp_all

lemma recipient_loop_total:
  assumes "\<forall>r\<in>set pats. sets_group r"
  shows "\<exists>a. recipient_loop u pats m = Inr a"
  using assms
proof (induction pats)
  case Nil
  then show ?case by simp
next
  case (Cons r pats)
  then have ih: "\<exists>a. recipient_loop u pats m = Inr a" by simp
  show ?case
  proof (cases "re_search u True r m")
    case None
    then show ?thesis using ih by simp
  next
    case (Some st)
    obtain a b where ab: "st \<in> set (runs u True r (prev_char None a, b, None))"
      using re_search_Some[OF Some] by (elim exE conjE)
    obtain p' s' g' where st: "st = (p', s', g')" by (cases st) auto
    have "g' \<noteq> None" using runs_sets_group[OF _ ab[unfolded st]] Cons.prems by simp
    then show ?thesis using Some st by (auto simp: group1_def)
  qed
qed

lemma recipient_patterns_group: "\<forall>r\<in>set recipient_patterns. sets_group r"
  by (simp add: recipient_patterns_def cat_def)

lemma extract_amount_total:
  "\<exists>a. extract_amount u m = Inr a \<and> (\<forall>v. a = Some v \<longrightarrow> non_negative v)"
  unfolding extract_amount_def by (rule money_loop_total[OF amount_patterns_money])

lemma extract_balance_total:
  "\<exists>a. extract_balance u m = Inr a \<and> (\<forall>v. a = Some v \<longrightarrow> non_negative v)"
  unfolding extract_balance_def by (rule money_loop_total[OF balance_patterns_money])

lemma extract_recipient_total: "\<exists>a. extract_recipient u m = Inr a"
  unfolding extract_recipient_def by (rule recipient_loop_total[OF recipient_patterns_group])

text \<open>
  C2.  \<open>parse\<close> is total: for every Unicode database, every clock value and every pair
  of strings (the empty string, non-ASCII text and any length included) it returns a
  record, never an exception; and each fallible extractor returns a value, so that a
  failed conversion or a pattern that does not match shows as an absent field.
\<close>

theorem parse_total:
  "(\<exists>r. parse u now sender_id message = Inr r)
   \<and> (\<exists>a. extract_amount u message = Inr a)
   \<and> (\<exists>b. extract_balance u message = Inr b)
   \<and> (\<exists>c. extract_recipient u message = Inr c)"
proof -
  obtain a where a: "extract_amount u message = Inr a" using extract_amount_total by blast
  obtain b where b: "extract_balance u message = Inr b" using extract_balance_total by blast
  obtain c where c: "extract_recipient u message = Inr c" using extract_recipient_total by blast
  show ?thesis using a b c by (simp add: parse_def Let_def)
qed

section \<open>The scenarios, and the range of the money fields\<close>

lemma round_double_high:
  assumes "floor_log2 p q = e" "52 \<le> e" "p \<noteq> 0"
  shows "round_double p q =
           (if 2 ^ 1024 \<le> round_half_even p (q * 2 ^ nat (e - 52)) * 2 ^ nat (e - 52) then PosInf
            else Finite (of_nat (round_half_even p (q * 2 ^ nat (e - 52)) * 2 ^ nat (e - 52))))"
  using assms by (simp add: round_double_def Let_def max_def)

lemma round_double_low:
  assumes "floor_log2 p q = e" "- 1022 < e" "e < 52" "p \<noteq> 0"
  shows "round_double p q =
           Finite (of_nat (round_half_even (p * 2 ^ nat (52 - e)) q) / of_nat (2 ^ nat (52 - e)))"
  using assms by (simp add: round_double_def Let_def max_def)

lemma huge_search:
  "re_search u True (hd amount_patterns) huge_amount = Some (Some 48, [], Some (tl (tl (tl huge_amount))))"
  by (simp add: huge_amount_def char_defs pattern_defs search_defs)

lemma huge_float: "py_float u (tl (tl (tl huge_amount))) = Inr (scale10 (10 ^ 309) 0)"
  by (simp add: huge_amount_def float_defs char_defs Let_def)

lemma huge_log2: "floor_log2 (10 ^ 309) 1 = 1026"
  by (simp add: floor_log2_def Let_def bitlen.simps)

lemma huge_scale: "scale10 (10 ^ 309) 0 = PosInf"
proof -
  have "round_double (10 ^ 309) 1 = PosInf"
    by (subst round_double_high[OF huge_log2]) (simp_all add: round_half_even_def Let_def)
  then show ?thesis by (simp add: scale10_def)
qed

lemma huge_no_comma: "replace_commas (tl (tl (tl huge_amount))) = tl (tl (tl huge_amount))"
  by (simp add: huge_amount_def replace_commas_def str_def)

lemma huge_float_value: "py_float u (replace_commas (tl (tl (tl huge_amount)))) = Inr PosInf"
  by (simp only: huge_no_comma huge_float huge_scale)

lemma huge_extract_amount: "extract_amount u huge_amount = Inr (Some PosInf)"
  using huge_search[of u]
  by (simp add: extract_amount_def amount_patterns_def group1_def huge_float_value)

lemma huge_extract_balance: "extract_balance u huge_amount = Inr None"
  by (simp add: huge_amount_def extract_balance_def char_defs pattern_defs search_defs)

lemma huge_extract_recipient: "extract_recipient u huge_amount = Inr None"
  by (simp add: huge_amount_def extract_recipient_def char_defs pattern_defs search_defs)

lemma parse_huge:
  "parse u now sender_id huge_amount =
     Inr \<lparr> sender = sender_id, raw_message = huge_amount,
           transaction_type = determine_transaction_type u huge_amount,
           amount = Some PosInf,
           transaction_code = extract_transaction_code u huge_amount,
           balance = None, recipient = None, timestamp = now,
           parsed_successfully = (extract_transaction_code u huge_amount \<noteq> None) \<rparr>"
  by (simp add: parse_def Let_def huge_extract_amount huge_extract_balance huge_extract_recipient)

text \<open>
  C8, as stated, fails: for the message \<open>Ksh1\<close> followed by 309 zeros the amount
  field is present and is plus infinity, because \<open>float\<close> overflows on a digit
  string that denotes \<open>10^309\<close>.
\<close>

theorem amount_infinite_counterexample:
  "map_sum id amount (parse ascii_db 0 (str ''MPESA'') huge_amount) = Inr (Some PosInf)
   \<and> \<not> is_finite PosInf"
  by (simp add: parse_huge is_finite_def)

lemma log2_500: "floor_log2 50000 100 = 8"
  by (simp add: floor_log2_def Let_def bitlen.simps)

lemma scale_500: "scale10 50000 (- 2) = Finite 500"
proof -
  have "round_double 50000 100 = Finite 500"
    by (subst round_double_low[OF log2_500]) (simp_all add: round_half_even_def Let_def)
  then show ?thesis by (simp add: scale10_def)
qed

lemma float_500: "py_float u (str ''500.00'') = Inr (scale10 50000 (- 2))"
  by (simp add: float_defs char_defs Let_def)

lemma log2_1234: "floor_log2 123456 100 = 10"
  by (simp add: floor_log2_def Let_def bitlen.simps)

lemma scale_1234: "scale10 123456 (- 2) = Finite (2714826150374277 / 2199023255552)"
proof -
  have "round_double 123456 100 = Finite (2714826150374277 / 2199023255552)"
    by (subst round_double_low[OF log2_1234]) (simp_all add: round_half_even_def Let_def)
  then show ?thesis by (simp add: scale10_def)
qed

lemma float_1234: "py_float u (str ''1234.56'') = Inr (scale10 123456 (- 2))"
  by (simp add: float_defs char_defs Let_def)

lemma sent_amount: "extract_amount u sent_message = Inr (Some (Finite 500))"
  using float_500[of u]
  by (simp add: sent_message_def extract_amount_def char_defs pattern_defs search_defs scale_500)

lemma sent_balance:
  "extract_balance u sent_message = Inr (Some (Finite (2714826150374277 / 2199023255552)))"
  using float_1234[of u]
  by (simp add: sent_message_def extract_balance_def char_defs pattern_defs search_defs scale_1234)

lemma sent_code: "extract_transaction_code u sent_message = Some (str ''RK12AB34CD'')"
  by (simp add: sent_message_def extract_transaction_code_def char_defs pattern_defs search_defs)

lemma sent_recipient: "extract_recipient u sent_message = Inr None"
  by (simp add: sent_message_def extract_recipient_def char_defs pattern_defs search_defs)

lemma sent_type: "determine_transaction_type u sent_message = SENT"
  by (simp add: sent_message_def determine_transaction_type_def TRANSACTION_TYPES_def
      py_lower_def char_defs)

lemma parse_sent:
  "parse u now sender_id sent_message =
     Inr \<lparr> sender = sender_id, raw_message = sent_message, transaction_type = SENT,
           amount = Some (Finite 500), transaction_code = Some (str ''RK12AB34CD''),
           balance = Some (Finite (2714826150374277 / 2199023255552)),
           recipient = None, timestamp = now, parsed_successfully = True \<rparr>"
  by (simp add: parse_def Let_def sent_amount sent_balance sent_code sent_recipient sent_type)

text \<open>
  C4, as stated, fails in one field: for the SENT scenario message the recipient of
  the returned record is not "JOHN DOE".  None of the phrases "sent to", "paid to",
  "received from" occurs in the message (it reads "sent Ksh500.00 to"), so both
  recipient patterns fail.
\<close>

theorem sent_scenario_counterexample:
  "map_sum id recipient (parse ascii_db 0 (str ''MPESA'') sent_message)
     \<noteq> Inr (Some (str ''JOHN DOE''))"
  by (simp add: parse_sent)

text \<open>
  C4, amended.  For the SENT scenario message, whatever the sender, the clock and the
  Unicode database, \<open>parse\<close> returns type SENT, amount 500.00, transaction code
  "RK12AB34CD", recipient absent, and \<open>parsed_successfully\<close> true; the balance is
  the double nearest to 1234.56, which is 2714826150374277 / 2^41 and lies within
  \<open>10^-12\<close> of 1234.56.
\<close>

theorem sent_scenario:
  "parse u now sender_id sent_message =
     Inr \<lparr> sender = sender_id, raw_message = sent_message, transaction_type = SENT,
           amount = Some (Finite 500), transaction_code = Some (str ''RK12AB34CD''),
           balance = Some (Finite (2714826150374277 / 2199023255552)),
           recipient = None, timestamp = now, parsed_successfully = True \<rparr>
   \<and> \<bar>2714826150374277 / 2199023255552 - 123456 / 100\<bar> < (1 / 10 ^ 12 :: rat)"
  by (simp add: parse_sent)







section \<open>Currency markers, the order of the patterns, and the word balance\<close>

lemma ci_prefix_iff:
  "ci_prefix u w s \<longleftrightarrow> (\<exists>x b. s = x @ b \<and> ci_eq u w x)"
proof (induction u w s rule: ci_prefix.induct)
  case (1 u s)
  then show ?case by (simp add: ci_eq_def)
next
  case (2 u p ps)
  then show ?case by (simp add: ci_eq_def)
next
  case (3 u p ps c cs)
  show ?case
  proof
    assume "ci_prefix u (p # ps) (c # cs)"
    then obtain x b where "lit_match u True p c" "cs = x @ b" "ci_eq u ps x"
      using 3 by auto
    then have "c # cs = (c # x) @ b \<and> ci_eq u (p # ps) (c # x)" by (simp add: ci_eq_def)
    then show "\<exists>x b. c # cs = x @ b \<and> ci_eq u (p # ps) x" by blast
  next
    assume "\<exists>x b. c # cs = x @ b \<and> ci_eq u (p # ps) x"
    then obtain x b where x: "c # cs = x @ b" "ci_eq u (p # ps) x" by blast
    then obtain y ys where "x = y # ys" "lit_match u True p y" "ci_eq u ps ys"
      by (auto simp: ci_eq_def list_all2_Cons1)
    then show "ci_prefix u (p # ps) (c # cs)" using x 3 by auto
  qed
qed

lemma ci_occurs_iff:
  "ci_occurs u w s \<longleftrightarrow> (\<exists>a x b. s = a @ x @ b \<and> ci_eq u w x)"
proof (induction s)
  case Nil
  then show ?case by (auto simp: ci_prefix_iff)
next
  case (Cons c cs)
  show ?case
  proof
    assume "ci_occurs u w (c # cs)"
    then consider "ci_prefix u w (c # cs)" | "ci_occurs u w cs" by auto
    then show "\<exists>a x b. c # cs = a @ x @ b \<and> ci_eq u w x"
    proof cases
      case 1
      then obtain x b where "c # cs = [] @ x @ b \<and> ci_eq u w x" by (auto simp: ci_prefix_iff)
      then show ?thesis by blast
    next
      case 2
      then obtain a x b where "cs = a @ x @ b" "ci_eq u w x" using Cons by blast
      then have "c # cs = (c # a) @ x @ b \<and> ci_eq u w x" by simp
      then show ?thesis by blast
    qed
  next
    assume "\<exists>a x b. c # cs = a @ x @ b \<and> ci_eq u w x"
    then obtain a x b where h: "c # cs = a @ x @ b" "ci_eq u w x" by blast
    show "ci_occurs u w (c # cs)"
    proof (cases a)
      case Nil
      then have "ci_prefix u w (c # cs)" using h ci_prefix_iff by auto
      then show ?thesis by simp
    next
      case (Cons a0 a')
      then have "cs = a' @ x @ b" using h by simp
      then have "ci_occurs u w cs" using h Cons.IH by blast
      then show ?thesis by simp
    qed
  qed
qed

lemma needs_word_lit: "needs_word u K (lit K)"
  unfolding needs_word_def
proof (intro allI impI)
  fix p s g st assume a: "st \<in> set (runs u True (lit K) (p, s, g))"
  obtain p' s' g' where st: "st = (p', s', g')" by (cases st) auto
  from a obtain x where "s = [] @ x @ s' \<and> ci_eq u (str K) x"
    by (auto simp: st in_runs_lit ci_eq_def)
  then show "\<exists>a x b. s = a @ x @ b \<and> ci_eq u (str K) x" by blast
qed

lemma needs_word_first:
  assumes "needs_word u K r1"
  shows "needs_word u K (Seq r1 r2)"
  unfolding needs_word_def
proof (intro allI impI)
  fix p s g st assume "st \<in> set (runs u True (Seq r1 r2) (p, s, g))"
  then obtain st1 where "st1 \<in> set (runs u True r1 (p, s, g))"
    by (auto simp: in_runs_Seq)
  then show "\<exists>a x b. s = a @ x @ b \<and> ci_eq u (str K) x"
    using assms unfolding needs_word_def by blast
qed

lemma needs_word_second:
  assumes "needs_word u K r2"
  shows "needs_word u K (Seq r1 r2)"
  unfolding needs_word_def
proof (intro allI impI)
  fix p s g st assume "st \<in> set (runs u True (Seq r1 r2) (p, s, g))"
  then obtain p1 s1 g1 where a: "(p1, s1, g1) \<in> set (runs u True r1 (p, s, g))"
    and b: "st \<in> set (runs u True r2 (p1, s1, g1))"
    by (auto simp: in_runs_Seq)
  obtain w where w: "s = w @ s1" using runs_suffix[OF a] by blast
  obtain a' x b' where "s1 = a' @ x @ b'" "ci_eq u (str K) x"
    using assms b unfolding needs_word_def by blast
  then have "s = (w @ a') @ x @ b' \<and> ci_eq u (str K) x" using w by simp
  then show "\<exists>a x b. s = a @ x @ b \<and> ci_eq u (str K) x" by blast
qed

lemma needs_word_tail: "needs_word u K (money_tail K)"
  by (simp add: money_tail_def cat_Cons needs_word_first needs_word_lit)

lemma re_search_needs:
  assumes "needs_word u K r" "\<not> ci_occurs u (str K) m"
  shows "re_search u True r m = None"
proof (rule ccontr)
  assume "re_search u True r m \<noteq> None"
  then obtain st where "re_search u True r m = Some st" by auto
  then obtain a b where ab: "m = a @ b" "st \<in> set (runs u True r (prev_char None a, b, None))"
    using re_search_Some by blast
  then obtain a' x b' where "b = a' @ x @ b'" "ci_eq u (str K) x"
    using assms(1) unfolding needs_word_def by blast
  then have "m = (a @ a') @ x @ b' \<and> ci_eq u (str K) x" using ab by simp
  then have "ci_occurs u (str K) m" unfolding ci_occurs_iff by blast
  then show False using assms(2) by simp
qed

lemma money_loop_none:
  assumes "\<forall>r\<in>set pats. \<exists>K. needs_word u K r \<and> \<not> ci_occurs u (str K) m"
  shows "money_loop u pats m = Inr None"
  using assms
proof (induction pats)
  case Nil
  then show ?case by simp
next
  case (Cons r pats)
  then obtain K where "needs_word u K r" "\<not> ci_occurs u (str K) m" by auto
  then have "re_search u True r m = None" by (rule re_search_needs)
  then show ?case using Cons by simp
qed

lemma amount_patterns_need:
  "needs_word u ''Ksh'' (amount_patterns ! 0)"
  "needs_word u ''KES'' (amount_patterns ! 1)"
  "needs_word u ''Ksh'' (amount_patterns ! 2)"
  by (simp_all add: amount_patterns_tails needs_word_tail needs_word_second)

text \<open>
  C9.  A message with no case-insensitive occurrence of "Ksh" and none of "KES"
  (characters compared as the patterns compare them under \<open>re.IGNORECASE\<close>) has no
  amount: the amount extractor returns none, and the record \<open>parse\<close> returns for it,
  whatever the sender and the clock, has \<open>parsed_successfully\<close> false.
\<close>

theorem no_currency_marker:
  assumes "\<not> ci_occurs u (str ''Ksh'') message" "\<not> ci_occurs u (str ''KES'') message"
  shows "extract_amount u message = Inr None
         \<and> (\<exists>r. parse u now sender_id message = Inr r \<and> \<not> parsed_successfully r)"
proof -
  have "\<forall>r\<in>set amount_patterns. \<exists>K. needs_word u K r \<and> \<not> ci_occurs u (str K) message"
    using assms amount_patterns_need[of u]
    by (auto simp: amount_patterns_tails)
  then have none: "extract_amount u message = Inr None"
    unfolding extract_amount_def by (rule money_loop_none)
  obtain b where b: "extract_balance u message = Inr b" using extract_balance_total by blast
  obtain c where c: "extract_recipient u message = Inr c" using extract_recipient_total by blast
  show ?thesis using none b c by (simp add: parse_def Let_def)
qed

theorem no_currency_marker_witness:
  "\<not> ci_occurs ascii_db (str ''Ksh'') (str ''Hello'')
   \<and> \<not> ci_occurs ascii_db (str ''KES'') (str ''Hello'')
   \<and> extract_amount ascii_db (str ''Hello'') = Inr None
   \<and> (\<exists>r. parse ascii_db 0 (str ''MPESA'') (str ''Hello'') = Inr r \<and> \<not> parsed_successfully r)"
proof -
  have a: "\<not> ci_occurs ascii_db (str ''Ksh'') (str ''Hello'')"
    by (simp add: char_defs)
  have b: "\<not> ci_occurs ascii_db (str ''KES'') (str ''Hello'')"
    by (simp add: char_defs)
  show ?thesis using a b no_currency_marker[OF a b, of 0 "str ''MPESA''"] by blast
qed

lemma money_loop_step:
  assumes "captures_money u r"
  shows "money_loop u (r # pats) m =
           (case converts u r m of Some v \<Rightarrow> Inr (Some v) | None \<Rightarrow> money_loop u pats m)"
proof (cases "re_search u True r m")
  case None
  then show ?thesis by (simp add: converts_def)
next
  case (Some st)
  obtain a b where "st \<in> set (runs u True r (prev_char None a, b, None))"
    using re_search_Some[OF Some] by (elim exE conjE)
  then have "\<exists>t. group1 st = Some t \<and> money_text u t"
    using assms unfolding captures_money_def by blast
  then obtain t where t: "group1 st = Some t" by (elim exE conjE)
  show ?thesis
  proof (cases "py_float u (replace_commas t)")
    case (Inl e)
    then have "e = ValueError" by (rule py_float_error)
    then show ?thesis using Some t Inl by (simp add: converts_def)
  next
    case (Inr v)
    then show ?thesis using Some t by (simp add: converts_def)
  qed
qed

lemma money_loop_split:
  assumes "\<forall>r\<in>set pats. captures_money u r"
    "pats = earlier @ r # later" "converts u r m = Some v" "\<forall>q\<in>set earlier. converts u q m = None"
  shows "money_loop u pats m = Inr (Some v)"
  using assms
proof (induction earlier arbitrary: pats)
  case Nil
  then show ?case by (simp add: money_loop_step del: money_loop.simps)
next
  case (Cons q earlier)
  have "money_loop u (earlier @ r # later) m = Inr (Some v)"
    using Cons.IH[of "earlier @ r # later"] Cons.prems by simp
  then show ?case using Cons.prems by (simp add: money_loop_step del: money_loop.simps)
qed

lemma money_loop_all_none:
  assumes "\<forall>r\<in>set pats. captures_money u r" "\<forall>q\<in>set pats. converts u q m = None"
  shows "money_loop u pats m = Inr None"
  using assms by (induction pats) (simp_all add: money_loop_step del: money_loop.simps(2))

lemma money_loop_cases:
  assumes "\<forall>r\<in>set pats. captures_money u r"
  shows "(money_loop u pats m = Inr None \<and> (\<forall>q\<in>set pats. converts u q m = None))
     \<or> (\<exists>earlier r later v. pats = earlier @ r # later \<and> converts u r m = Some v
           \<and> (\<forall>q\<in>set earlier. converts u q m = None) \<and> money_loop u pats m = Inr (Some v))"
  using assms
proof (induction pats)
  case Nil
  then show ?case by simp
next
  case (Cons p pats)
  then have cm: "captures_money u p" by simp
  show ?case
  proof (cases "converts u p m")
    case (Some v)
    then have "p # pats = [] @ p # pats \<and> converts u p m = Some v
        \<and> (\<forall>q\<in>set []. converts u q m = None) \<and> money_loop u (p # pats) m = Inr (Some v)"
      using cm by (simp add: money_loop_step del: money_loop.simps)
    then show ?thesis by blast
  next
    case None
    then have step: "money_loop u (p # pats) m = money_loop u pats m"
      using cm by (simp add: money_loop_step del: money_loop.simps)
    from Cons have "(money_loop u pats m = Inr None \<and> (\<forall>q\<in>set pats. converts u q m = None))
     \<or> (\<exists>earlier r later v. pats = earlier @ r # later \<and> converts u r m = Some v
           \<and> (\<forall>q\<in>set earlier. converts u q m = None) \<and> money_loop u pats m = Inr (Some v))"
      by simp
    then show ?thesis
    proof
      assume "money_loop u pats m = Inr None \<and> (\<forall>q\<in>set pats. converts u q m = None)"
      then show ?thesis using None step by simp
    next
      assume "\<exists>earlier r later v. pats = earlier @ r # later \<and> converts u r m = Some v
           \<and> (\<forall>q\<in>set earlier. converts u q m = None) \<and> money_loop u pats m = Inr (Some v)"
      then obtain earlier r later v where h: "pats = earlier @ r # later" "converts u r m = Some v"
        "\<forall>q\<in>set earlier. converts u q m = None" "money_loop u pats m = Inr (Some v)"
        by (elim exE conjE)
      have "p # pats = (p # earlier) @ r # later \<and> converts u r m = Some v
           \<and> (\<forall>q\<in>set (p # earlier). converts u q m = None)
           \<and> money_loop u (p # pats) m = Inr (Some v)"
        using h None step by simp
      then show ?thesis by blast
    qed
  qed
qed

lemma converts_None_iff:
  assumes "captures_money u r"
  shows "converts u r m = None \<longleftrightarrow>
          (re_search u True r m = None
           \<or> (\<exists>mt t. re_search u True r m = Some mt \<and> group1 mt = Some t
                 \<and> py_float u (filter (\<lambda>c. c \<noteq> of_char CHR '','') t) = Inl ValueError))"
proof (cases "re_search u True r m")
  case None
  then show ?thesis by (simp add: converts_def)
next
  case (Some st)
  obtain a b where "st \<in> set (runs u True r (prev_char None a, b, None))"
    using re_search_Some[OF Some] by (elim exE conjE)
  then have "\<exists>t. group1 st = Some t \<and> money_text u t"
    using assms unfolding captures_money_def by blast
  then obtain t where t: "group1 st = Some t" by (elim exE conjE)
  show ?thesis
  proof (cases "py_float u (replace_commas t)")
    case (Inl e)
    then have "e = ValueError" by (rule py_float_error)
    then show ?thesis using Some t Inl by (simp add: converts_def replace_commas_def)
  next
    case (Inr v)
    then show ?thesis using Some t by (simp add: converts_def replace_commas_def)
  qed
qed

lemma converts_Some_iff:
  "converts u r m = Some v \<longleftrightarrow>
     (\<exists>mt t. re_search u True r m = Some mt \<and> group1 mt = Some t
         \<and> py_float u (filter (\<lambda>c. c \<noteq> of_char CHR '','') t) = Inr v)"
  by (auto simp: converts_def replace_commas_def split: option.splits sum.splits)

text \<open>
  C6.  The amount extractor has three patterns and applies them in the declared
  order.  It never raises.  It returns the value of the first pattern whose capture
  (group 1 of the pattern's first match) converts to a number once every comma has been
  taken out of it; a pattern that does not match, or whose capture without its commas
  makes \<open>float\<close> raise \<open>ValueError\<close>, is passed over; and it returns none exactly when
  no pattern yields a convertible capture.  The commas are written out as a filter on
  the captured text, so \<open>1,000\<close> is read as 1000 although \<open>float\<close> rejects \<open>1,000\<close>.
\<close>

theorem amount_first_convertible:
  "length amount_patterns = 3
   \<and> (\<exists>a. extract_amount u message = Inr a)
   \<and> (extract_amount u message = Inr None \<longleftrightarrow>
        (\<forall>q\<in>set amount_patterns.
            re_search u True q message = None
            \<or> (\<exists>mt t. re_search u True q message = Some mt \<and> group1 mt = Some t
                  \<and> py_float u (filter (\<lambda>c. c \<noteq> of_char CHR '','') t) = Inl ValueError)))
   \<and> (extract_amount u message = Inr (Some v) \<longleftrightarrow>
        (\<exists>earlier r later mt t. amount_patterns = earlier @ r # later
            \<and> re_search u True r message = Some mt \<and> group1 mt = Some t
            \<and> py_float u (filter (\<lambda>c. c \<noteq> of_char CHR '','') t) = Inr v
            \<and> (\<forall>q\<in>set earlier.
                  re_search u True q message = None
                  \<or> (\<exists>mt t. re_search u True q message = Some mt \<and> group1 mt = Some t
                        \<and> py_float u (filter (\<lambda>c. c \<noteq> of_char CHR '','') t) = Inl ValueError))))"
proof (intro conjI)
  show "length amount_patterns = 3" by (simp add: amount_patterns_def)
  show "\<exists>a. extract_amount u message = Inr a" using extract_amount_total by blast
  note cases = money_loop_cases[OF amount_patterns_money, of u message]
  have none: "converts u q message = None \<longleftrightarrow>
          (re_search u True q message = None
           \<or> (\<exists>mt t. re_search u True q message = Some mt \<and> group1 mt = Some t
                 \<and> py_float u (filter (\<lambda>c. c \<noteq> of_char CHR '','') t) = Inl ValueError))"
    if "q \<in> set amount_patterns" for q
    using converts_None_iff[of u q message] amount_patterns_money that by blast
  have a: "extract_amount u message = Inr None \<longleftrightarrow>
        (\<forall>q\<in>set amount_patterns. converts u q message = None)"
    unfolding extract_amount_def
    using cases money_loop_all_none[OF amount_patterns_money, of u message] by auto
  show "extract_amount u message = Inr None \<longleftrightarrow>
        (\<forall>q\<in>set amount_patterns.
            re_search u True q message = None
            \<or> (\<exists>mt t. re_search u True q message = Some mt \<and> group1 mt = Some t
                  \<and> py_float u (filter (\<lambda>c. c \<noteq> of_char CHR '','') t) = Inl ValueError))"
    unfolding a using none by simp
  have b: "extract_amount u message = Inr (Some v) \<longleftrightarrow>
        (\<exists>earlier r later. amount_patterns = earlier @ r # later
            \<and> converts u r message = Some v
            \<and> (\<forall>q\<in>set earlier. converts u q message = None))"
    unfolding extract_amount_def
  proof
    assume "money_loop u amount_patterns message = Inr (Some v)"
    then show "\<exists>earlier r later. amount_patterns = earlier @ r # later
            \<and> converts u r message = Some v
            \<and> (\<forall>q\<in>set earlier. converts u q message = None)"
      using cases by auto
  next
    assume "\<exists>earlier r later. amount_patterns = earlier @ r # later
            \<and> converts u r message = Some v
            \<and> (\<forall>q\<in>set earlier. converts u q message = None)"
    then obtain earlier r later where "amount_patterns = earlier @ r # later"
       "converts u r message = Some v" "\<forall>q\<in>set earlier. converts u q message = None"
      by (elim exE conjE)
    then show "money_loop u amount_patterns message = Inr (Some v)"
      using money_loop_split[OF amount_patterns_money] by blast
  qed
  show "extract_amount u message = Inr (Some v) \<longleftrightarrow>
        (\<exists>earlier r later mt t. amount_patterns = earlier @ r # later
            \<and> re_search u True r message = Some mt \<and> group1 mt = Some t
            \<and> py_float u (filter (\<lambda>c. c \<noteq> of_char CHR '','') t) = Inr v
            \<and> (\<forall>q\<in>set earlier.
                  re_search u True q message = None
                  \<or> (\<exists>mt t. re_search u True q message = Some mt \<and> group1 mt = Some t
                        \<and> py_float u (filter (\<lambda>c. c \<noteq> of_char CHR '','') t) = Inl ValueError)))"
    (is "?L \<longleftrightarrow> ?R")
  proof
    assume ?L
    then obtain earlier r later where h: "amount_patterns = earlier @ r # later"
       "converts u r message = Some v" "\<forall>q\<in>set earlier. converts u q message = None"
      unfolding b by (elim exE conjE)
    obtain mt t where mt: "re_search u True r message = Some mt" "group1 mt = Some t"
       "py_float u (filter (\<lambda>c. c \<noteq> of_char CHR '','') t) = Inr v"
      using h(2) unfolding converts_Some_iff by (elim exE conjE)
    have sub: "set earlier \<subseteq> set amount_patterns" by (subst h(1)) auto
    have "\<forall>q\<in>set earlier.
                  re_search u True q message = None
                  \<or> (\<exists>mt t. re_search u True q message = Some mt \<and> group1 mt = Some t
                        \<and> py_float u (filter (\<lambda>c. c \<noteq> of_char CHR '','') t) = Inl ValueError)"
    proof
      fix q assume q: "q \<in> set earlier"
      then have "converts u q message = None" using h(3) by simp
      moreover have "q \<in> set amount_patterns" using q sub by blast
      ultimately show "re_search u True q message = None
                  \<or> (\<exists>mt t. re_search u True q message = Some mt \<and> group1 mt = Some t
                        \<and> py_float u (filter (\<lambda>c. c \<noteq> of_char CHR '','') t) = Inl ValueError)"
        using none by simp
    qed
    with h(1) mt show ?R by blast
  next
    assume ?R
    then obtain earlier r later mt t where h: "amount_patterns = earlier @ r # later"
       "re_search u True r message = Some mt" "group1 mt = Some t"
       "py_float u (filter (\<lambda>c. c \<noteq> of_char CHR '','') t) = Inr v"
       "\<forall>q\<in>set earlier.
                  re_search u True q message = None
                  \<or> (\<exists>mt t. re_search u True q message = Some mt \<and> group1 mt = Some t
                        \<and> py_float u (filter (\<lambda>c. c \<noteq> of_char CHR '','') t) = Inl ValueError)"
      by (elim exE conjE)
    have sub: "set earlier \<subseteq> set amount_patterns" by (subst h(1)) auto
    have c: "converts u r message = Some v" unfolding converts_Some_iff using h(2,3,4) by blast
    have "\<forall>q\<in>set earlier. converts u q message = None"
    proof
      fix q assume q: "q \<in> set earlier"
      then have "q \<in> set amount_patterns" using sub by blast
      then show "converts u q message = None" using none h(5) q by simp
    qed
    with h(1) c show ?L unfolding b by blast
  qed
qed

lemma float_empty: "py_float u [] = Inl ValueError"
  by (simp add: float_defs char_defs Let_def)

lemma log2_thousand: "floor_log2 1000 1 = 9"
  by (simp add: floor_log2_def Let_def bitlen.simps)

lemma scale_thousand: "scale10 1000 0 = Finite 1000"
proof -
  have "round_double 1000 1 = Finite 1000"
    by (subst round_double_low[OF log2_thousand]) (simp_all add: round_half_even_def Let_def)
  then show ?thesis by (simp add: scale10_def)
qed

lemma float_thousand: "py_float u (str ''1000'') = Inr (Finite 1000)"
proof -
  have "py_float u (str ''1000'') = Inr (scale10 1000 0)"
    by (simp add: float_defs char_defs Let_def)
  then show ?thesis by (simp only: scale_thousand)
qed

lemma float_with_comma: "py_float u (str ''1,000'') = Inl ValueError"
  by (simp add: float_defs char_defs Let_def)

lemma thousand_first_matches:
  "re_search u True (amount_patterns ! 0) thousand_after_comma
     = Some (Some 44, str '' then KES 1,000'', Some (str '',''))"
  by (simp add: thousand_after_comma_def char_defs pattern_defs search_defs)

lemma thousand_second_matches:
  "re_search u True (amount_patterns ! 1) thousand_after_comma
     = Some (Some 48, [], Some (str ''1,000''))"
  by (simp add: thousand_after_comma_def char_defs pattern_defs search_defs)

lemma strip_thousand: "filter (\<lambda>c. c \<noteq> of_char CHR '','') (str ''1,000'') = str ''1000''"
  by (simp add: str_def)

lemma strip_comma: "filter (\<lambda>c. c \<noteq> of_char CHR '','') (str '','') = []"
  by (simp add: str_def)


lemma marker_first_matches:
  "re_search u True (amount_patterns ! 0) marker_then_comma = Some (Some 44, [], Some (str '',''))"
  by (simp add: marker_then_comma_def char_defs pattern_defs search_defs)

lemma marker_second_fails: "re_search u True (amount_patterns ! 1) marker_then_comma = None"
  by (simp add: marker_then_comma_def char_defs pattern_defs search_defs)

lemma marker_third_fails: "re_search u True (amount_patterns ! 2) marker_then_comma = None"
  by (simp add: marker_then_comma_def char_defs pattern_defs search_defs)

theorem amount_first_convertible_witness:
  "re_search ascii_db True (amount_patterns ! 0) thousand_after_comma
     = Some (Some 44, str '' then KES 1,000'', Some (str '',''))
   \<and> py_float ascii_db (filter (\<lambda>c. c \<noteq> of_char CHR '','') (str '','')) = Inl ValueError
   \<and> re_search ascii_db True (amount_patterns ! 1) thousand_after_comma
     = Some (Some 48, [], Some (str ''1,000''))
   \<and> py_float ascii_db (str ''1,000'') = Inl ValueError
   \<and> filter (\<lambda>c. c \<noteq> of_char CHR '','') (str ''1,000'') = str ''1000''
   \<and> py_float ascii_db (str ''1000'') = Inr (Finite 1000)
   \<and> extract_amount ascii_db thousand_after_comma = Inr (Some (Finite 1000))
   \<and> extract_amount ascii_db marker_then_comma = Inr None"
proof -
  have split: "amount_patterns = [amount_patterns ! 0] @ amount_patterns ! 1 # [amount_patterns ! 2]"
    by (simp add: amount_patterns_def)
  have first: "py_float ascii_db (filter (\<lambda>c. c \<noteq> of_char CHR '','') (str '','')) = Inl ValueError"
    by (simp only: strip_comma float_empty)
  have second: "py_float ascii_db (filter (\<lambda>c. c \<noteq> of_char CHR '','') (str ''1,000'')) = Inr (Finite 1000)"
    by (simp only: strip_thousand float_thousand)
  have "amount_patterns = [amount_patterns ! 0] @ amount_patterns ! 1 # [amount_patterns ! 2]
            \<and> re_search ascii_db True (amount_patterns ! 1) thousand_after_comma
                 = Some (Some 48, [], Some (str ''1,000''))
            \<and> group1 (Some 48, [], Some (str ''1,000'')) = Some (str ''1,000'')
            \<and> py_float ascii_db (filter (\<lambda>c. c \<noteq> of_char CHR '','') (str ''1,000'')) = Inr (Finite 1000)
            \<and> (\<forall>q\<in>set [amount_patterns ! 0].
                  re_search ascii_db True q thousand_after_comma = None
                  \<or> (\<exists>mt t. re_search ascii_db True q thousand_after_comma = Some mt \<and> group1 mt = Some t
                        \<and> py_float ascii_db (filter (\<lambda>c. c \<noteq> of_char CHR '','') t) = Inl ValueError))"
    using split thousand_first_matches[of ascii_db] thousand_second_matches[of ascii_db] first second
    by (simp add: group1_def)
  then have thousand: "extract_amount ascii_db thousand_after_comma = Inr (Some (Finite 1000))"
    using amount_first_convertible[of ascii_db thousand_after_comma "Finite 1000"] by blast
  have all: "amount_patterns = [amount_patterns ! 0, amount_patterns ! 1, amount_patterns ! 2]"
    by (simp add: amount_patterns_def)
  have "\<forall>q\<in>set [amount_patterns ! 0, amount_patterns ! 1, amount_patterns ! 2].
            re_search ascii_db True q marker_then_comma = None
            \<or> (\<exists>mt t. re_search ascii_db True q marker_then_comma = Some mt \<and> group1 mt = Some t
                  \<and> py_float ascii_db (filter (\<lambda>c. c \<noteq> of_char CHR '','') t) = Inl ValueError)"
    using marker_first_matches[of ascii_db] marker_second_fails[of ascii_db]
      marker_third_fails[of ascii_db] first
    by (simp add: group1_def)
  then have "\<forall>q\<in>set amount_patterns.
            re_search ascii_db True q marker_then_comma = None
            \<or> (\<exists>mt t. re_search ascii_db True q marker_then_comma = Some mt \<and> group1 mt = Some t
                  \<and> py_float ascii_db (filter (\<lambda>c. c \<noteq> of_char CHR '','') t) = Inl ValueError)"
    by (simp only: all[symmetric])
  then have none: "extract_amount ascii_db marker_then_comma = Inr None"
    using amount_first_convertible[of ascii_db marker_then_comma "Finite 0"] by blast
  show ?thesis
    using thousand_first_matches[of ascii_db] thousand_second_matches[of ascii_db] first
      float_with_comma[of ascii_db] strip_thousand float_thousand[of ascii_db] thousand none
    by (simp only: simp_thms)
qed

lemma ends_with_tail_base: "ends_with_tail u (money_tail ''Ksh'')"
  unfolding ends_with_tail_def
proof (intro allI impI)
  fix p s g st assume a: "st \<in> set (runs u True (money_tail ''Ksh'') (p, s, g))"
  obtain p' s' g' where st: "st = (p', s', g')" by (cases st) auto
  from money_tail_run[OF a[unfolded st]] obtain ksh sp t where
    "s = [] @ ksh @ sp @ t @ s'" "ci_eq u (str ''Ksh'') ksh" "list_all (is_space u) sp"
    "money_text u t" "g' = Some t" by auto
  then have "s = [] @ ksh @ sp @ t @ fst (snd st) \<and> ci_eq u (str ''Ksh'') ksh
            \<and> list_all (is_space u) sp \<and> money_text u t \<and> group1 st = Some t"
    by (simp add: st group1_def)
  then show "\<exists>gap ksh sp t. s = gap @ ksh @ sp @ t @ fst (snd st) \<and> ci_eq u (str ''Ksh'') ksh
            \<and> list_all (is_space u) sp \<and> money_text u t \<and> group1 st = Some t"
    by blast
qed

lemma ends_with_tail_Seq:
  assumes "ends_with_tail u r2"
  shows "ends_with_tail u (Seq r1 r2)"
  unfolding ends_with_tail_def
proof (intro allI impI)
  fix p s g st assume "st \<in> set (runs u True (Seq r1 r2) (p, s, g))"
  then obtain p1 s1 g1 where a: "(p1, s1, g1) \<in> set (runs u True r1 (p, s, g))"
    and b: "st \<in> set (runs u True r2 (p1, s1, g1))"
    by (auto simp: in_runs_Seq)
  obtain w where w: "s = w @ s1" using runs_suffix[OF a] by blast
  from assms b have "\<exists>gap ksh sp t. s1 = gap @ ksh @ sp @ t @ fst (snd st) \<and> ci_eq u (str ''Ksh'') ksh
            \<and> list_all (is_space u) sp \<and> money_text u t \<and> group1 st = Some t"
    unfolding ends_with_tail_def by blast
  then obtain gap ksh sp t where "s1 = gap @ ksh @ sp @ t @ fst (snd st)" "ci_eq u (str ''Ksh'') ksh"
            "list_all (is_space u) sp" "money_text u t" "group1 st = Some t"
    by (elim exE conjE)
  then have "s = (w @ gap) @ ksh @ sp @ t @ fst (snd st) \<and> ci_eq u (str ''Ksh'') ksh
            \<and> list_all (is_space u) sp \<and> money_text u t \<and> group1 st = Some t"
    using w by simp
  then show "\<exists>gap ksh sp t. s = gap @ ksh @ sp @ t @ fst (snd st) \<and> ci_eq u (str ''Ksh'') ksh
            \<and> list_all (is_space u) sp \<and> money_text u t \<and> group1 st = Some t"
    by blast
qed

lemma balance_shape_lit:
  assumes "ends_with_tail u r" "str B = str ''balance'' @ extra"
  shows "balance_shape u (Seq (lit B) r)"
  unfolding balance_shape_def
proof (intro allI impI)
  fix p s g st assume "st \<in> set (runs u True (Seq (lit B) r) (p, s, g))"
  then obtain p1 s1 g1 where a: "(p1, s1, g1) \<in> set (runs u True (lit B) (p, s, g))"
    and b: "st \<in> set (runs u True r (p1, s1, g1))"
    by (auto simp: in_runs_Seq)
  from a obtain x where x: "s = x @ s1" "list_all2 (lit_match u True) (str ''balance'' @ extra) x"
    by (auto simp: in_runs_lit assms(2))
  then obtain bal e where be: "x = bal @ e" "list_all2 (lit_match u True) (str ''balance'') bal"
    by (auto simp: list_all2_append1)
  from assms(1) b have "\<exists>gap ksh sp t. s1 = gap @ ksh @ sp @ t @ fst (snd st) \<and> ci_eq u (str ''Ksh'') ksh
            \<and> list_all (is_space u) sp \<and> money_text u t \<and> group1 st = Some t"
    unfolding ends_with_tail_def by blast
  then obtain gap ksh sp t where "s1 = gap @ ksh @ sp @ t @ fst (snd st)" "ci_eq u (str ''Ksh'') ksh"
            "list_all (is_space u) sp" "money_text u t" "group1 st = Some t"
    by (elim exE conjE)
  then have "s = [] @ bal @ (e @ gap) @ ksh @ sp @ t @ fst (snd st)
            \<and> ci_eq u (str ''balance'') bal \<and> ci_eq u (str ''Ksh'') ksh
            \<and> list_all (is_space u) sp \<and> money_text u t \<and> group1 st = Some t"
    using x be by (simp add: ci_eq_def)
  then show "\<exists>pre bal gap ksh sp t. s = pre @ bal @ gap @ ksh @ sp @ t @ fst (snd st)
            \<and> ci_eq u (str ''balance'') bal \<and> ci_eq u (str ''Ksh'') ksh
            \<and> list_all (is_space u) sp \<and> money_text u t \<and> group1 st = Some t"
    by blast
qed

lemma balance_shape_Seq:
  assumes "balance_shape u r2"
  shows "balance_shape u (Seq r1 r2)"
  unfolding balance_shape_def
proof (intro allI impI)
  fix p s g st assume "st \<in> set (runs u True (Seq r1 r2) (p, s, g))"
  then obtain p1 s1 g1 where a: "(p1, s1, g1) \<in> set (runs u True r1 (p, s, g))"
    and b: "st \<in> set (runs u True r2 (p1, s1, g1))"
    by (auto simp: in_runs_Seq)
  obtain w where w: "s = w @ s1" using runs_suffix[OF a] by blast
  from assms b have "\<exists>pre bal gap ksh sp t. s1 = pre @ bal @ gap @ ksh @ sp @ t @ fst (snd st)
            \<and> ci_eq u (str ''balance'') bal \<and> ci_eq u (str ''Ksh'') ksh
            \<and> list_all (is_space u) sp \<and> money_text u t \<and> group1 st = Some t"
    unfolding balance_shape_def by blast
  then obtain pre bal gap ksh sp t where "s1 = pre @ bal @ gap @ ksh @ sp @ t @ fst (snd st)"
     "ci_eq u (str ''balance'') bal" "ci_eq u (str ''Ksh'') ksh"
            "list_all (is_space u) sp" "money_text u t" "group1 st = Some t"
    by (elim exE conjE)
  then have "s = (w @ pre) @ bal @ gap @ ksh @ sp @ t @ fst (snd st)
            \<and> ci_eq u (str ''balance'') bal \<and> ci_eq u (str ''Ksh'') ksh
            \<and> list_all (is_space u) sp \<and> money_text u t \<and> group1 st = Some t"
    using w by simp
  then show "\<exists>pre bal gap ksh sp t. s = pre @ bal @ gap @ ksh @ sp @ t @ fst (snd st)
            \<and> ci_eq u (str ''balance'') bal \<and> ci_eq u (str ''Ksh'') ksh
            \<and> list_all (is_space u) sp \<and> money_text u t \<and> group1 st = Some t"
    by blast
qed

lemma balance_patterns_shape: "\<forall>r\<in>set balance_patterns. balance_shape u r"
proof -
  have a: "str ''balance '' = str ''balance'' @ [32]" by (simp add: str_def)
  have b: "str ''balance'' = str ''balance'' @ []" by simp
  show ?thesis
    by (simp add: balance_patterns_tails balance_shape_lit[OF _ a] balance_shape_lit[OF _ b]
        balance_shape_Seq ends_with_tail_Seq ends_with_tail_base)
qed

lemma balance_shape_needs: "balance_shape u r \<Longrightarrow> needs_word u ''balance'' r"
  unfolding balance_shape_def needs_word_def by blast

lemma converts_Some:
  assumes "converts u r m = Some v"
  shows "\<exists>st t. re_search u True r m = Some st \<and> group1 st = Some t
           \<and> py_float u (replace_commas t) = Inr v"
  using assms by (auto simp: converts_def split: option.splits sum.splits)

text \<open>
  C10.  A message with no case-insensitive occurrence of the word "balance" has no
  balance: the balance extractor returns none.  And a balance is only ever read off a
  number that follows the word: when the extractor returns a value, the message
  contains "balance", later "Ksh", optional white space, and directly after it a text
  of digits, commas and points whose conversion (commas removed) is that value.
\<close>

theorem balance_only_after_word:
  "(\<not> ci_occurs u (str ''balance'') message \<longrightarrow> extract_balance u message = Inr None)
   \<and> (extract_balance u message = Inr (Some v) \<longrightarrow>
        (\<exists>pre bal gap ksh sp t post.
            message = pre @ bal @ gap @ ksh @ sp @ t @ post
            \<and> ci_eq u (str ''balance'') bal \<and> ci_eq u (str ''Ksh'') ksh
            \<and> list_all (is_space u) sp \<and> money_text u t
            \<and> py_float u (replace_commas t) = Inr v))"
proof (intro conjI impI)
  assume no: "\<not> ci_occurs u (str ''balance'') message"
  have "\<forall>r\<in>set balance_patterns. \<exists>K. needs_word u K r \<and> \<not> ci_occurs u (str K) message"
    using no balance_patterns_shape balance_shape_needs by blast
  then show "extract_balance u message = Inr None"
    unfolding extract_balance_def by (rule money_loop_none)
next
  assume "extract_balance u message = Inr (Some v)"
  then have "\<exists>earlier r later v'. balance_patterns = earlier @ r # later
       \<and> converts u r message = Some v'
       \<and> (\<forall>q\<in>set earlier. converts u q message = None)
       \<and> money_loop u balance_patterns message = Inr (Some v')"
    using money_loop_cases[OF balance_patterns_money, of u message]
    by (simp add: extract_balance_def)
  then obtain earlier r later v' where h: "balance_patterns = earlier @ r # later"
     "converts u r message = Some v'" "money_loop u balance_patterns message = Inr (Some v')"
    by (elim exE conjE)
  have v': "v' = v" using h(3) \<open>extract_balance u message = Inr (Some v)\<close>
    by (simp add: extract_balance_def)
  have "r \<in> set (earlier @ r # later)" by simp
  then have "r \<in> set balance_patterns" by (simp only: h(1)[symmetric])
  then have shape: "balance_shape u r" using balance_patterns_shape by blast
  obtain st t where st: "re_search u True r message = Some st" "group1 st = Some t"
     "py_float u (replace_commas t) = Inr v"
    using converts_Some[OF h(2)] v' by (elim exE conjE) simp
  obtain a b where ab: "message = a @ b" "st \<in> set (runs u True r (prev_char None a, b, None))"
    using re_search_Some[OF st(1)] by (elim exE conjE)
  from shape ab(2) have "\<exists>pre bal gap ksh sp t. b = pre @ bal @ gap @ ksh @ sp @ t @ fst (snd st)
            \<and> ci_eq u (str ''balance'') bal \<and> ci_eq u (str ''Ksh'') ksh
            \<and> list_all (is_space u) sp \<and> money_text u t \<and> group1 st = Some t"
    unfolding balance_shape_def by blast
  then obtain pre bal gap ksh sp t' where d: "b = pre @ bal @ gap @ ksh @ sp @ t' @ fst (snd st)"
     "ci_eq u (str ''balance'') bal" "ci_eq u (str ''Ksh'') ksh"
     "list_all (is_space u) sp" "money_text u t'" "group1 st = Some t'"
    by (elim exE conjE)
  have "t' = t" using d(6) st(2) by simp
  then have "message = (a @ pre) @ bal @ gap @ ksh @ sp @ t @ fst (snd st)
            \<and> ci_eq u (str ''balance'') bal \<and> ci_eq u (str ''Ksh'') ksh
            \<and> list_all (is_space u) sp \<and> money_text u t
            \<and> py_float u (replace_commas t) = Inr v"
    using ab(1) d st(3) by simp
  then show "\<exists>pre bal gap ksh sp t post.
            message = pre @ bal @ gap @ ksh @ sp @ t @ post
            \<and> ci_eq u (str ''balance'') bal \<and> ci_eq u (str ''Ksh'') ksh
            \<and> list_all (is_space u) sp \<and> money_text u t
            \<and> py_float u (replace_commas t) = Inr v"
    by blast
qed

lemma log2_five: "floor_log2 5 1 = 2"
  by (simp add: floor_log2_def Let_def bitlen.simps)

lemma scale_five: "scale10 5 0 = Finite 5"
proof -
  have "round_double 5 1 = Finite 5"
    by (subst round_double_low[OF log2_five]) (simp_all add: round_half_even_def Let_def)
  then show ?thesis by (simp add: scale10_def)
qed

lemma float_five: "py_float u (str ''5'') = Inr (scale10 5 0)"
  by (simp add: float_defs char_defs Let_def)

lemma balance_five: "extract_balance u (str ''Balance: Ksh5'') = Inr (Some (Finite 5))"
  using float_five[of u]
  by (simp add: extract_balance_def char_defs pattern_defs search_defs scale_five)

theorem balance_only_after_word_witness:
  "\<not> ci_occurs ascii_db (str ''balance'') (str ''Ksh5'')
   \<and> extract_balance ascii_db (str ''Ksh5'') = Inr None
   \<and> extract_balance ascii_db (str ''Balance: Ksh5'') = Inr (Some (Finite 5))
   \<and> (\<exists>pre bal gap ksh sp t post.
            str ''Balance: Ksh5'' = pre @ bal @ gap @ ksh @ sp @ t @ post
            \<and> ci_eq ascii_db (str ''balance'') bal \<and> ci_eq ascii_db (str ''Ksh'') ksh
            \<and> list_all (is_space ascii_db) sp \<and> money_text ascii_db t
            \<and> py_float ascii_db (replace_commas t) = Inr (Finite 5))"
proof -
  have a: "\<not> ci_occurs ascii_db (str ''balance'') (str ''Ksh5'')"
    by (simp add: char_defs)
  show ?thesis
    using a balance_five[of ascii_db]
      balance_only_after_word[of ascii_db "str ''Ksh5''" "Finite 5"]
      balance_only_after_word[of ascii_db "str ''Balance: Ksh5''" "Finite 5"]
    by blast
qed

section \<open>The transaction-code extractor\<close>

lemma in_cset_upper: "in_cset u False (Rng 65 90) = is_upper_ascii"
  by (rule ext) (simp add: is_upper_ascii_def)

lemma in_cset_upper_digit:
  "in_cset u False (Union (Rng 65 90) (Rng 48 57)) = (\<lambda>c. is_upper_ascii c \<or> is_digit_ascii c)"
  by (rule ext) (simp add: is_upper_ascii_def is_digit_ascii_def)

lemma code_body_runs:
  "(p', s', g') \<in> set (runs u False
       (cat [Rep True 2 (Some 2) (Rng 65 90), Rep True 2 (Some 2) Digit,
             Rep True 5 (Some 6) (Union (Rng 65 90) (Rng 48 57))]) (p, s, g)) \<longleftrightarrow>
   (\<exists>x y z. s = x @ y @ z @ s' \<and> length x = 2 \<and> list_all is_upper_ascii x
       \<and> length y = 2 \<and> list_all (is_digit u) y
       \<and> (length z = 5 \<or> length z = 6) \<and> list_all (\<lambda>c. is_upper_ascii c \<or> is_digit_ascii c) z
       \<and> p' = prev_char p (x @ y @ z) \<and> g' = g)"
  (is "?L \<longleftrightarrow> ?R")
proof
  assume ?L
  then obtain p1 s1 g1 p2 s2 g2 where
    a: "(p1, s1, g1) \<in> set (runs u False (Rep True 2 (Some 2) (Rng 65 90)) (p, s, g))" and
    b: "(p2, s2, g2) \<in> set (runs u False (Rep True 2 (Some 2) Digit) (p1, s1, g1))" and
    c: "(p', s', g') \<in> set (runs u False (Rep True 5 (Some 6) (Union (Rng 65 90) (Rng 48 57))) (p2, s2, g2))"
    by (auto simp: cat_Cons cat_Nil in_runs_Seq in_runs_Eps)
  from a obtain x where x: "s = x @ s1" "length x = 2" "list_all is_upper_ascii x"
     "p1 = prev_char p x" "g1 = g"
    unfolding in_runs_Rep in_cset_upper by (auto simp: at_most_def)
  from b obtain y where y: "s1 = y @ s2" "length y = 2" "list_all (is_digit u) y"
     "p2 = prev_char p1 y" "g2 = g1"
    unfolding in_runs_Rep in_cset_Digit by (auto simp: at_most_def)
  from c obtain z where z: "s2 = z @ s'" "5 \<le> length z" "length z \<le> 6"
     "list_all (\<lambda>c. is_upper_ascii c \<or> is_digit_ascii c) z"
     "p' = prev_char p2 z" "g' = g2"
    unfolding in_runs_Rep in_cset_upper_digit by (auto simp: at_most_def)
  have "length z = 5 \<or> length z = 6" using z(2,3) by arith
  then have "s = x @ y @ z @ s' \<and> length x = 2 \<and> list_all is_upper_ascii x
       \<and> length y = 2 \<and> list_all (is_digit u) y
       \<and> (length z = 5 \<or> length z = 6) \<and> list_all (\<lambda>c. is_upper_ascii c \<or> is_digit_ascii c) z
       \<and> p' = prev_char p (x @ y @ z) \<and> g' = g"
    using x y z by simp
  then show ?R by blast
next
  assume ?R
  then obtain x y z where h: "s = x @ y @ z @ s'" "length x = 2" "list_all is_upper_ascii x"
       "length y = 2" "list_all (is_digit u) y"
       "length z = 5 \<or> length z = 6" "list_all (\<lambda>c. is_upper_ascii c \<or> is_digit_ascii c) z"
       "p' = prev_char p (x @ y @ z)" "g' = g"
    by (elim exE conjE)
  have a: "(prev_char p x, y @ z @ s', g) \<in> set (runs u False (Rep True 2 (Some 2) (Rng 65 90)) (p, s, g))"
    unfolding in_runs_Rep in_cset_upper using h by (auto simp: at_most_def)
  have b: "(prev_char p (x @ y), z @ s', g) \<in> set (runs u False (Rep True 2 (Some 2) Digit)
        (prev_char p x, y @ z @ s', g))"
    unfolding in_runs_Rep in_cset_Digit using h by (auto simp: at_most_def)
  have c: "(p', s', g') \<in> set (runs u False (Rep True 5 (Some 6) (Union (Rng 65 90) (Rng 48 57)))
        (prev_char p (x @ y), z @ s', g))"
    unfolding in_runs_Rep in_cset_upper_digit using h by (auto simp: at_most_def)
  show ?L
    unfolding cat_Cons cat_Nil in_runs_Seq in_runs_Eps using a b c by blast
qed

lemma code_shape_split:
  "code_shape u w \<longleftrightarrow>
   (\<exists>x y z. w = x @ y @ z \<and> length x = 2 \<and> list_all is_upper_ascii x
       \<and> length y = 2 \<and> list_all (is_digit u) y
       \<and> (length z = 5 \<or> length z = 6) \<and> list_all (\<lambda>c. is_upper_ascii c \<or> is_digit_ascii c) z)"
  (is "?L \<longleftrightarrow> ?R")
proof
  assume L: ?L
  then have len: "length w = 9 \<or> length w = 10" by (simp add: code_shape_def)
  have e1: "take 2 (drop 2 w) @ drop 2 (drop 2 w) = drop 2 w" by (rule append_take_drop_id)
  have e2: "drop 2 (drop 2 w) = drop 4 w" by simp
  have e3: "take 2 w @ drop 2 w = w" by simp
  have w: "w = take 2 w @ take 2 (drop 2 w) @ drop 4 w" using e1 e2 e3 by metis
  have "length (take 2 w) = 2 \<and> length (take 2 (drop 2 w)) = 2
      \<and> (length (drop 4 w) = 5 \<or> length (drop 4 w) = 6)"
    using len by auto
  then have "w = take 2 w @ take 2 (drop 2 w) @ drop 4 w \<and> length (take 2 w) = 2
       \<and> list_all is_upper_ascii (take 2 w)
       \<and> length (take 2 (drop 2 w)) = 2 \<and> list_all (is_digit u) (take 2 (drop 2 w))
       \<and> (length (drop 4 w) = 5 \<or> length (drop 4 w) = 6)
       \<and> list_all (\<lambda>c. is_upper_ascii c \<or> is_digit_ascii c) (drop 4 w)"
    using L w unfolding code_shape_def by blast
  then show ?R by blast
next
  assume ?R
  then obtain x y z where h: "w = x @ y @ z" "length x = 2" "list_all is_upper_ascii x"
       "length y = 2" "list_all (is_digit u) y"
       "length z = 5 \<or> length z = 6" "list_all (\<lambda>c. is_upper_ascii c \<or> is_digit_ascii c) z"
    by (elim exE conjE)
  then show ?L unfolding code_shape_def by auto
qed

lemma code_pattern_runs:
  "(p', s', g') \<in> set (runs u False code_pattern (p, s, g)) \<longleftrightarrow>
   (\<exists>w. s = w @ s' \<and> code_shape u w \<and> at_boundary u p s
        \<and> at_boundary u (prev_char p w) s' \<and> p' = prev_char p w \<and> g' = Some w)"
  (is "?L \<longleftrightarrow> ?R")
proof
  assume ?L
  then obtain p2 s2 g2 where
    a: "at_boundary u p s" and
    b: "(p2, s2, g2) \<in> set (runs u False (Group (cat [Rep True 2 (Some 2) (Rng 65 90),
          Rep True 2 (Some 2) Digit, Rep True 5 (Some 6) (Union (Rng 65 90) (Rng 48 57))])) (p, s, g))" and
    c: "(p', s', g') \<in> set (runs u False WordB (p2, s2, g2))"
    by (auto simp: code_pattern_def cat_Cons cat_Nil in_runs_Seq in_runs_Eps in_runs_WordB)
  from c have c': "at_boundary u p2 s2" "p' = p2" "s' = s2" "g' = g2"
    by (auto simp: in_runs_WordB)
  from b obtain g0 w where w: "s = w @ s2" "g2 = Some w" and
    body: "(p2, s2, g0) \<in> set (runs u False (cat [Rep True 2 (Some 2) (Rng 65 90),
          Rep True 2 (Some 2) Digit, Rep True 5 (Some 6) (Union (Rng 65 90) (Rng 48 57))]) (p, s, g))"
    unfolding in_runs_Group by blast
  from body obtain x y z where xyz: "s = x @ y @ z @ s2" "length x = 2" "list_all is_upper_ascii x"
       "length y = 2" "list_all (is_digit u) y"
       "length z = 5 \<or> length z = 6" "list_all (\<lambda>c. is_upper_ascii c \<or> is_digit_ascii c) z"
       "p2 = prev_char p (x @ y @ z)"
    unfolding code_body_runs by blast
  have weq: "w = x @ y @ z" using w(1) xyz(1) by simp
  then have "code_shape u w" unfolding code_shape_split using xyz by blast
  then have "s = w @ s' \<and> code_shape u w \<and> at_boundary u p s
        \<and> at_boundary u (prev_char p w) s' \<and> p' = prev_char p w \<and> g' = Some w"
    using a c' w weq xyz(8) by simp
  then show ?R by blast
next
  assume ?R
  then obtain w where h: "s = w @ s'" "code_shape u w" "at_boundary u p s"
        "at_boundary u (prev_char p w) s'" "p' = prev_char p w" "g' = Some w"
    by (elim exE conjE)
  from h(2) obtain x y z where xyz: "w = x @ y @ z" "length x = 2" "list_all is_upper_ascii x"
       "length y = 2" "list_all (is_digit u) y"
       "length z = 5 \<or> length z = 6" "list_all (\<lambda>c. is_upper_ascii c \<or> is_digit_ascii c) z"
    unfolding code_shape_split by blast
  have body: "(p', s', g) \<in> set (runs u False (cat [Rep True 2 (Some 2) (Rng 65 90),
          Rep True 2 (Some 2) Digit, Rep True 5 (Some 6) (Union (Rng 65 90) (Rng 48 57))]) (p, s, g))"
    unfolding code_body_runs using h(1,5) xyz by auto
  have grp: "(p', s', Some w) \<in> set (runs u False (Group (cat [Rep True 2 (Some 2) (Rng 65 90),
          Rep True 2 (Some 2) Digit, Rep True 5 (Some 6) (Union (Rng 65 90) (Rng 48 57))])) (p, s, g))"
    unfolding in_runs_Group using body h(1) by blast
  have first: "(p, s, g) \<in> set (runs u False WordB (p, s, g))"
    using h(3) by (simp add: in_runs_WordB)
  have last: "(p', s', g') \<in> set (runs u False WordB (p', s', Some w))"
    using h(4,5,6) by (simp add: in_runs_WordB)
  have eq: "code_pattern = Seq WordB (Seq (Group (cat [Rep True 2 (Some 2) (Rng 65 90),
          Rep True 2 (Some 2) Digit, Rep True 5 (Some 6) (Union (Rng 65 90) (Rng 48 57))]))
            (Seq WordB Eps))"
    by (simp add: code_pattern_def cat_def)
  show ?L
    unfolding eq in_runs_Seq in_runs_Eps
    using first grp last by blast
qed

lemma upper_is_word: "is_upper_ascii c \<Longrightarrow> is_word u c"
  by (simp add: is_word_def is_upper_ascii_def)

lemma digit_ascii_is_word: "is_digit_ascii c \<Longrightarrow> is_word u c"
  by (simp add: is_word_def is_digit_ascii_def)

lemma code_shape_ends:
  assumes "code_shape u w"
  shows "w \<noteq> [] \<and> is_word u (hd w) \<and> is_word u (last w)"
proof -
  from assms obtain x y z where xyz: "w = x @ y @ z" "length x = 2" "list_all is_upper_ascii x"
       "length z = 5 \<or> length z = 6" "list_all (\<lambda>c. is_upper_ascii c \<or> is_digit_ascii c) z"
    unfolding code_shape_split by blast
  have x: "x \<noteq> []" using xyz(2) by auto
  have z: "z \<noteq> []" using xyz(4) by auto
  have "hd w = hd x" using xyz(1) x by simp
  moreover have "is_upper_ascii (hd x)" using xyz(3) x by (cases x) auto
  moreover have "last w = last z" using xyz(1) z by simp
  moreover have "is_upper_ascii (last z) \<or> is_digit_ascii (last z)"
    using xyz(5) z by (metis (mono_tags, lifting) last_in_set list_all_iff)
  ultimately show ?thesis using x xyz(1) upper_is_word digit_ascii_is_word by auto
qed

lemma boundary_before:
  assumes "w \<noteq> []" "is_word u (hd w)"
  shows "at_boundary u p (w @ s') \<longleftrightarrow> \<not> word_opt u p"
  using assms by (cases w) (auto simp: at_boundary_def word_opt_def)

lemma boundary_after:
  assumes "w \<noteq> []" "is_word u (last w)"
  shows "at_boundary u (prev_char p w) s' \<longleftrightarrow> (s' = [] \<or> \<not> is_word u (hd s'))"
  using assms by (cases s') (auto simp: at_boundary_def word_opt_def prev_char_def)

lemma word_before_split:
  "\<not> word_opt u (prev_char None a) \<longleftrightarrow> (length a = 0 \<or> \<not> is_word u ((a @ b) ! (length a - 1)))"
proof (cases "a = []")
  case True
  then show ?thesis by (simp add: word_opt_def)
next
  case False
  then have "(a @ b) ! (length a - 1) = last a"
    by (simp add: nth_append last_conv_nth)
  then show ?thesis using False by (simp add: word_opt_def prev_char_def)
qed

lemma word_after_split:
  assumes "n \<le> length b"
  shows "(drop n b = [] \<or> \<not> is_word u (hd (drop n b))) \<longleftrightarrow>
         (length a + n = length (a @ b) \<or> \<not> is_word u ((a @ b) ! (length a + n)))"
proof (cases "n = length b")
  case True
  then show ?thesis by simp
next
  case False
  then have lt: "n < length b" using assms by simp
  then have "hd (drop n b) = b ! n" by (simp add: hd_drop_conv_nth)
  then show ?thesis using lt by (simp add: nth_append)
qed

lemma code_runs_at:
  "(p', s', g') \<in> set (runs u False code_pattern (prev_char None a, b, None)) \<longleftrightarrow>
   (\<exists>n. code_at u (a @ b) (length a) n \<and> s' = drop n b \<and> g' = Some (take n b)
        \<and> p' = prev_char None (a @ take n b))"
  (is "?L \<longleftrightarrow> ?R")
proof
  assume ?L
  then obtain w where h: "b = w @ s'" "code_shape u w" "at_boundary u (prev_char None a) b"
        "at_boundary u (prev_char (prev_char None a) w) s'" "p' = prev_char (prev_char None a) w"
        "g' = Some w"
    unfolding code_pattern_runs by blast
  note ends = code_shape_ends[OF h(2)]
  have n: "length w \<le> length b" "take (length w) b = w" "drop (length w) b = s'"
    using h(1) by auto
  have before: "\<not> word_opt u (prev_char None a)"
    using h(3) boundary_before[of w u "prev_char None a" s'] ends h(1) by simp
  have after: "s' = [] \<or> \<not> is_word u (hd s')"
    using h(4) boundary_after[of w u "prev_char None a" s'] ends by simp
  have "whole_word u (a @ b) (length a) (length w)"
    unfolding whole_word_def
    using before after word_before_split[of u a b] word_after_split[OF n(1), of u a] n(3)
    by blast
  then have "code_at u (a @ b) (length a) (length w)"
    using h(2) n by (simp add: code_at_def)
  then have "code_at u (a @ b) (length a) (length w) \<and> s' = drop (length w) b
        \<and> g' = Some (take (length w) b) \<and> p' = prev_char None (a @ take (length w) b)"
    using n h(5,6) by simp
  then show ?R by blast
next
  assume ?R
  then obtain n where h: "code_at u (a @ b) (length a) n" "s' = drop n b" "g' = Some (take n b)"
        "p' = prev_char None (a @ take n b)"
    by (elim exE conjE)
  from h(1) have n: "n \<le> length b" and shape: "code_shape u (take n b)"
    and ww: "whole_word u (a @ b) (length a) n"
    by (auto simp: code_at_def)
  note ends = code_shape_ends[OF shape]
  have b: "b = take n b @ s'" using h(2) by simp
  have before: "\<not> word_opt u (prev_char None a)"
    using ww word_before_split[of u a b] unfolding whole_word_def by blast
  have after: "s' = [] \<or> \<not> is_word u (hd s')"
    using ww word_after_split[OF n, of u a] h(2) unfolding whole_word_def by blast
  have "at_boundary u (prev_char None a) (take n b @ drop n b)"
    using boundary_before[of "take n b" u "prev_char None a" "drop n b"] ends before by blast
  then have b1: "at_boundary u (prev_char None a) b" by simp
  have b2: "at_boundary u (prev_char (prev_char None a) (take n b)) s'"
    using boundary_after[of "take n b" u "prev_char None a" s'] ends after by simp
  have "b = take n b @ s' \<and> code_shape u (take n b) \<and> at_boundary u (prev_char None a) b
        \<and> at_boundary u (prev_char (prev_char None a) (take n b)) s'
        \<and> p' = prev_char (prev_char None a) (take n b) \<and> g' = Some (take n b)"
    using b shape b1 b2 h(3,4) by simp
  then show ?L unfolding code_pattern_runs by blast
qed

lemma code_at_unique:
  assumes "code_at u m i n" "code_at u m i k"
  shows "n = k"
proof (rule ccontr)
  assume ne: "n \<noteq> k"
  have len: "n = 9 \<or> n = 10" "k = 9 \<or> k = 10"
    using assms by (auto simp: code_at_def code_shape_def)
  have aux: "False" if a: "code_at u m i 9" and b: "code_at u m i 10"
  proof -
    from b have le: "i + 10 \<le> length m" and sh: "code_shape u (take 10 (drop i m))"
      by (auto simp: code_at_def)
    have "(take 10 (drop i m)) ! 9 \<in> set (drop 4 (take 10 (drop i m)))"
      using le by (auto simp: in_set_conv_nth intro!: exI[of _ 5])
    then have "is_upper_ascii ((take 10 (drop i m)) ! 9) \<or> is_digit_ascii ((take 10 (drop i m)) ! 9)"
      using sh by (auto simp: code_shape_def list_all_iff)
    moreover have "(take 10 (drop i m)) ! 9 = m ! (i + 9)" using le by simp
    ultimately have "is_word u (m ! (i + 9))"
      using upper_is_word digit_ascii_is_word by auto
    moreover have "i + 9 \<noteq> length m" using le by simp
    ultimately show False using a by (simp add: code_at_def whole_word_def)
  qed
  show False using len ne assms aux by auto
qed

lemma code_runs_empty:
  "runs u False code_pattern (prev_char None a, b, None) = [] \<longleftrightarrow>
     (\<forall>n. \<not> code_at u (a @ b) (length a) n)"
proof
  assume e: "runs u False code_pattern (prev_char None a, b, None) = []"
  show "\<forall>n. \<not> code_at u (a @ b) (length a) n"
  proof (intro allI notI)
    fix n assume "code_at u (a @ b) (length a) n"
    then have "(prev_char None (a @ take n b), drop n b, Some (take n b))
        \<in> set (runs u False code_pattern (prev_char None a, b, None))"
      unfolding code_runs_at by blast
    then show False using e by simp
  qed
next
  assume n: "\<forall>n. \<not> code_at u (a @ b) (length a) n"
  show "runs u False code_pattern (prev_char None a, b, None) = []"
  proof (rule ccontr)
    assume "runs u False code_pattern (prev_char None a, b, None) \<noteq> []"
    then obtain st where "st \<in> set (runs u False code_pattern (prev_char None a, b, None))"
      by (cases "runs u False code_pattern (prev_char None a, b, None)") auto
    then show False using n code_runs_at[of "fst st" "fst (snd st)" "snd (snd st)" u a b] by auto
  qed
qed

lemma code_runs_group:
  assumes "st \<in> set (runs u False code_pattern (prev_char None a, b, None))"
  shows "\<exists>n. code_at u (a @ b) (length a) n \<and> group1 st = Some (take n b)"
  using assms code_runs_at[of "fst st" "fst (snd st)" "snd (snd st)" u a b]
  by (auto simp: group1_def)

lemma split_at_position:
  assumes "i \<le> length m"
  shows "m = take i m @ drop i m \<and> length (take i m) = i"
  using assms by simp

lemma code_search_None:
  "re_search u False code_pattern m = None \<longleftrightarrow> (\<forall>i n. \<not> code_at u m i n)"
proof
  assume "re_search u False code_pattern m = None"
  then have e: "\<And>a b. m = a @ b \<Longrightarrow> runs u False code_pattern (prev_char None a, b, None) = []"
    unfolding re_search_def search_from_None by blast
  show "\<forall>i n. \<not> code_at u m i n"
  proof (intro allI notI)
    fix i n assume c: "code_at u m i n"
    then have "i \<le> length m" by (simp add: code_at_def)
    then have sp: "m = take i m @ drop i m" "length (take i m) = i" by simp_all
    have "runs u False code_pattern (prev_char None (take i m), drop i m, None) = []"
      using e sp(1) by blast
    then have "\<not> code_at u (take i m @ drop i m) (length (take i m)) n"
      unfolding code_runs_empty by blast
    then show False using c sp by simp
  qed
next
  assume n: "\<forall>i n. \<not> code_at u m i n"
  have "\<And>a b. m = a @ b \<Longrightarrow> runs u False code_pattern (prev_char None a, b, None) = []"
    unfolding code_runs_empty using n by blast
  then show "re_search u False code_pattern m = None"
    unfolding re_search_def search_from_None by blast
qed

lemma code_search_Some:
  assumes "re_search u False code_pattern m = Some st"
  shows "\<exists>i n. code_at u m i n \<and> group1 st = Some (take n (drop i m))
           \<and> (\<forall>j<i. \<forall>k. \<not> code_at u m j k)"
proof -
  obtain a b where ab: "m = a @ b" "runs u False code_pattern (prev_char None a, b, None) \<noteq> []"
    "st = hd (runs u False code_pattern (prev_char None a, b, None))"
    and early: "\<forall>a' b'. m = a' @ b' \<and> length a' < length a
                 \<longrightarrow> runs u False code_pattern (prev_char None a', b', None) = []"
    using search_from_Some[OF assms[unfolded re_search_def]] by (elim exE conjE)
  have "st \<in> set (runs u False code_pattern (prev_char None a, b, None))"
    using ab(2,3) by simp
  then obtain n where n: "code_at u (a @ b) (length a) n" "group1 st = Some (take n b)"
    using code_runs_group by blast
  have none: "\<forall>j<length a. \<forall>k. \<not> code_at u m j k"
  proof (intro allI impI notI)
    fix j k assume j: "j < length a" and c: "code_at u m j k"
    have "j \<le> length m" using j ab(1) by simp
    then have sp: "m = take j m @ drop j m" "length (take j m) = j" by simp_all
    then have "runs u False code_pattern (prev_char None (take j m), drop j m, None) = []"
      using early j by metis
    then have "\<not> code_at u (take j m @ drop j m) (length (take j m)) k"
      unfolding code_runs_empty by blast
    then show False using c sp by simp
  qed
  have "code_at u m (length a) n \<and> group1 st = Some (take n (drop (length a) m))
           \<and> (\<forall>j<length a. \<forall>k. \<not> code_at u m j k)"
    using n none ab(1) by simp
  then show ?thesis by blast
qed

text \<open>
  C5, amended.  The transaction-code extractor returns none exactly when the message
  has no substring of the code shape (two upper-case letters, two digits, five or six
  upper-case letters or digits) standing as a whole word; otherwise it returns the
  first such substring from the left.  "Whole word" is the word boundary of the
  engine: neither neighbour of the substring is a word character, and the word
  characters are the letters, the digits and the underscore.
\<close>

theorem code_first_whole_word:
  "(extract_transaction_code u message = None \<longleftrightarrow> (\<forall>i n. \<not> code_at u message i n))
   \<and> (extract_transaction_code u message = Some c \<longleftrightarrow>
        (\<exists>i n. code_at u message i n \<and> c = take n (drop i message)
            \<and> (\<forall>j<i. \<forall>k. \<not> code_at u message j k)))"
proof (intro conjI)
  show "extract_transaction_code u message = None \<longleftrightarrow> (\<forall>i n. \<not> code_at u message i n)"
  proof (cases "re_search u False code_pattern message")
    case None
    then show ?thesis using code_search_None[of u message]
      by (simp add: extract_transaction_code_def)
  next
    case (Some st)
    then have "group1 st \<noteq> None" using code_search_Some[OF Some] by auto
    moreover have "\<not> (\<forall>i n. \<not> code_at u message i n)"
      using Some code_search_None[of u message] by simp
    ultimately show ?thesis using Some by (auto simp: extract_transaction_code_def)
  qed
next
  show "extract_transaction_code u message = Some c \<longleftrightarrow>
        (\<exists>i n. code_at u message i n \<and> c = take n (drop i message)
            \<and> (\<forall>j<i. \<forall>k. \<not> code_at u message j k))"
  proof
    assume "extract_transaction_code u message = Some c"
    then obtain st where st: "re_search u False code_pattern message = Some st" "group1 st = Some c"
      by (auto simp: extract_transaction_code_def split: option.splits)
    then show "\<exists>i n. code_at u message i n \<and> c = take n (drop i message)
            \<and> (\<forall>j<i. \<forall>k. \<not> code_at u message j k)"
      using code_search_Some[OF st(1)] by auto
  next
    assume "\<exists>i n. code_at u message i n \<and> c = take n (drop i message)
            \<and> (\<forall>j<i. \<forall>k. \<not> code_at u message j k)"
    then obtain i n where h: "code_at u message i n" "c = take n (drop i message)"
       "\<forall>j<i. \<forall>k. \<not> code_at u message j k"
      by (elim exE conjE)
    have "re_search u False code_pattern message \<noteq> None"
      using h(1) code_search_None[of u message] by blast
    then obtain st where st: "re_search u False code_pattern message = Some st" by auto
    obtain i' n' where h': "code_at u message i' n'" "group1 st = Some (take n' (drop i' message))"
       "\<forall>j<i'. \<forall>k. \<not> code_at u message j k"
      using code_search_Some[OF st] by (elim exE conjE)
    have "i' = i" using h(1,3) h'(1,3) by (meson nat_neq_iff)
    moreover from this have "n' = n" using code_at_unique h(1) h'(1) by blast
    ultimately have "group1 st = Some c" using h(2) h'(2) by simp
    then show "extract_transaction_code u message = Some c"
      using st by (simp add: extract_transaction_code_def)
  qed
qed

lemma underscore_spec: "spec_code_at ascii_db code_underscore 0 10"
  by (simp add: spec_code_at_def code_shape_def is_alnum_def code_underscore_def char_defs)

lemma underscore_none: "extract_transaction_code u code_underscore = None"
  by (simp add: code_underscore_def extract_transaction_code_def char_defs pattern_defs search_defs)

text \<open>
  C5, as stated, fails: in "RK12AB34CD_" the ten characters from position 0 have the
  shape of a code and are not part of a longer alphanumeric run (the underscore is
  neither a letter nor a digit), yet the extractor returns none, because the
  underscore is a word character for \<open>\b\<close>.
\<close>

theorem code_alphanumeric_run_counterexample:
  "spec_code_at ascii_db code_underscore 0 10
   \<and> extract_transaction_code ascii_db code_underscore = None"
  by (simp add: underscore_spec underscore_none)

lemma code_example_at: "code_at ascii_db code_in_text 4 10"
  by (simp add: code_at_def code_shape_def whole_word_def code_in_text_def char_defs)

lemma code_example_value: "extract_transaction_code u code_in_text = Some (str ''RK12AB34CD'')"
  by (simp add: code_in_text_def extract_transaction_code_def char_defs pattern_defs search_defs)

theorem code_first_whole_word_witness:
  "extract_transaction_code ascii_db code_in_text = Some (str ''RK12AB34CD'')
   \<and> (\<exists>i n. code_at ascii_db code_in_text i n
          \<and> str ''RK12AB34CD'' = take n (drop i code_in_text)
          \<and> (\<forall>j<i. \<forall>k. \<not> code_at ascii_db code_in_text j k))
   \<and> code_at ascii_db code_in_text 4 10
   \<and> extract_transaction_code ascii_db code_underscore = None
   \<and> (\<forall>i n. \<not> code_at ascii_db code_underscore i n)"
proof -
  note v = code_example_value[of ascii_db]
  have first: "\<exists>i n. code_at ascii_db code_in_text i n
          \<and> str ''RK12AB34CD'' = take n (drop i code_in_text)
          \<and> (\<forall>j<i. \<forall>k. \<not> code_at ascii_db code_in_text j k)"
    using code_first_whole_word[of ascii_db code_in_text "str ''RK12AB34CD''"] v by blast
  have none: "\<forall>i n. \<not> code_at ascii_db code_underscore i n"
    using code_first_whole_word[of ascii_db code_underscore "[]"] underscore_none[of ascii_db]
    by blast
  show ?thesis using v first none code_example_at underscore_none[of ascii_db] by blast
qed

section \<open>Finite money fields for messages of ordinary length\<close>

lemma bitlen_bounds: "0 < n \<Longrightarrow> 2 ^ (bitlen n - 1) \<le> n \<and> n < 2 ^ bitlen n"
proof (induction n rule: bitlen.induct)
  case (1 n)
  show ?case
  proof (cases "n div 2 = 0")
    case True
    then have "n = 1" using "1.prems" by auto
    then show ?thesis by (simp add: bitlen.simps)
  next
    case False
    then have ih: "2 ^ (bitlen (n div 2) - 1) \<le> n div 2 \<and> n div 2 < 2 ^ bitlen (n div 2)"
      using "1.IH" "1.prems" by simp
    have bl: "bitlen n = Suc (bitlen (n div 2))" using "1.prems" by (subst bitlen.simps) simp
    have pos: "0 < bitlen (n div 2)" using False by (subst bitlen.simps) simp
    have "(2::nat) ^ (bitlen n - 1) = 2 * 2 ^ (bitlen (n div 2) - 1)"
      using bl pos by (cases "bitlen (n div 2)") auto
    then have lo: "2 ^ (bitlen n - 1) \<le> n" using ih by linarith
    have "n < 2 * 2 ^ bitlen (n div 2)" using ih by linarith
    then show ?thesis using lo bl by simp
  qed
qed

lemma floor_log2_bounds:
  assumes "0 < p" "0 < q" "0 \<le> floor_log2 p q"
  shows "q * 2 ^ nat (floor_log2 p q) \<le> p \<and> p < q * 2 ^ (nat (floor_log2 p q) + 1)"
proof -
  define bp where "bp = bitlen p"
  define bq where "bq = bitlen q"
  have P: "2 ^ (bp - 1) \<le> p" "p < 2 ^ bp" using bitlen_bounds[OF assms(1)] by (simp_all add: bp_def)
  have Q: "2 ^ (bq - 1) \<le> q" "q < 2 ^ bq" using bitlen_bounds[OF assms(2)] by (simp_all add: bq_def)
  have bpos: "0 < bp" "0 < bq"
    using assms(1,2) by (simp_all add: bp_def bq_def bitlen.simps[of p] bitlen.simps[of q])
  have q2: "2 ^ bq \<le> 2 * q"
  proof -
    have "(2::nat) ^ bq = 2 * 2 ^ (bq - 1)" using bpos(2) by (cases bq) auto
    then show ?thesis using Q(1) by linarith
  qed
  show ?thesis
  proof (cases "bq \<le> bp")
    case True
    define k where "k = bp - bq"
    have kint: "int (bitlen p) - int (bitlen q) = int k" using True by (simp add: k_def bp_def bq_def)
    have bp: "bp = k + bq" using True by (simp add: k_def)
    show ?thesis
    proof (cases "q * 2 ^ k \<le> p")
      case t: True
      then have e: "floor_log2 p q = int k" by (simp add: floor_log2_def kint Let_def)
      have "p < 2 ^ k * 2 ^ bq" using P(2) bp by (simp add: power_add)
      also have "\<dots> \<le> 2 ^ k * (2 * q)" using q2 by simp
      finally have "p < q * 2 ^ (k + 1)" by (simp add: mult.commute mult.left_commute)
      then show ?thesis using t e by simp
    next
      case f: False
      then have e: "floor_log2 p q = int k - 1" by (simp add: floor_log2_def kint Let_def)
      then have k1: "1 \<le> k" using assms(3) by simp
      have "q * 2 ^ (k - 1) < 2 ^ bq * 2 ^ (k - 1)" using Q(2) by simp
      also have "\<dots> = 2 ^ (bp - 1)" using bp k1 bpos by (simp add: power_add[symmetric])
      finally have lo: "q * 2 ^ (k - 1) \<le> p" using P(1) by linarith
      have n: "nat (int k - 1) = k - 1" by simp
      have "k - 1 + 1 = k" using k1 by simp
      then show ?thesis using f lo e n by (simp del: power_Suc)
    qed
  next
    case False
    then have lt: "bp < bq" by simp
    then have neg: "int (bitlen p) - int (bitlen q) < 0" by (simp add: bp_def bq_def)
    then have "floor_log2 p q < 0"
      by (auto simp: floor_log2_def Let_def)
    then show ?thesis using assms(3) by simp
  qed
qed

lemma round_half_even_le: "round_half_even a b \<le> a div b + 1"
  by (simp add: round_half_even_def Let_def)

lemma round_double_finite:
  assumes "0 < q" "p < q * 2 ^ 1023"
  shows "is_finite (round_double p q)"
proof (cases "p = 0")
  case True
  then show ?thesis by (simp add: round_double_def is_finite_def)
next
  case False
  then have p: "0 < p" by simp
  define e where "e = floor_log2 p q"
  show ?thesis
  proof (cases "0 \<le> max (e - 52) (- 1074)")
    case False
    then show ?thesis using p by (simp add: round_double_def Let_def is_finite_def e_def)
  next
    case True
    then have e52: "52 \<le> e" by (simp add: max_def split: if_splits)
    then have t: "max (e - 52) (- 1074) = e - 52" by simp
    define T where "T = nat (e - 52)"
    have E: "nat e = T + 52" using e52 by (simp add: T_def)
    have fb0: "q * 2 ^ nat e \<le> p \<and> p < q * 2 ^ (nat e + 1)"
      using floor_log2_bounds[OF p assms(1)] e52 by (simp add: e_def)
    have E1: "nat e + 1 = T + 53" using E by simp
    have fb1: "q * 2 ^ (T + 52) \<le> p" using fb0 by (simp only: E)
    have fb2: "p < q * 2 ^ (T + 53)" using fb0 by (simp only: E1)
    note fb = fb1 fb2
    have "q * 2 ^ (T + 52) < q * 2 ^ 1023" using fb(1) assms(2) by linarith
    then have "(2::nat) ^ (T + 52) < 2 ^ 1023" using assms(1) by simp
    then have TE: "T + 52 < 1023" by (rule power_less_imp_less_exp[rotated]) simp
    define b where "b = q * 2 ^ T"
    have bpos: "0 < b" using assms(1) by (simp add: b_def)
    have "p < 2 ^ 53 * b" using fb(2) by (simp add: b_def power_add mult_ac)
    then have "p div b < 2 ^ 53" using bpos by (simp add: less_mult_imp_div_less)
    then have m: "round_half_even p b \<le> 2 ^ 53" using round_half_even_le[of p b] by linarith
    have "round_half_even p b * 2 ^ T \<le> 2 ^ 53 * 2 ^ T" using m by simp
    also have "\<dots> = 2 ^ (T + 53)" by (simp add: power_add)
    also have "\<dots> \<le> 2 ^ 1023" using TE by (intro power_increasing) simp_all
    also have "\<dots> < (2::nat) ^ 1024" by (intro power_strict_increasing) simp_all
    finally have v: "\<not> 2 ^ 1024 \<le> round_half_even p (q * 2 ^ T) * 2 ^ T" by (simp add: b_def)
    have "round_double p q = Finite (of_nat (round_half_even p (q * 2 ^ T) * 2 ^ T))"
      using False e52 v t unfolding round_double_def Let_def e_def[symmetric] T_def[symmetric]
      by (simp add: T_def)
    then show ?thesis by (simp add: is_finite_def)
  qed
qed

lemma scale10_finite:
  assumes "n < 10 ^ 300" "x \<le> 0"
  shows "is_finite (scale10 n x)"
proof -
  have small: "(10::nat) ^ 300 < 2 ^ 1023" by simp
  show ?thesis
  proof (cases "x = 0")
    case True
    have "n * 10 ^ nat 0 < 1 * 2 ^ 1023" using assms(1) small by simp
    then show ?thesis using True round_double_finite[of 1 "n * 10 ^ nat 0"]
      by (simp add: scale10_def)
  next
    case False
    have pos: "0 < (10::nat) ^ nat (- x)" by simp
    have "n < 1 * 2 ^ 1023" using assms(1) small by linarith
    also have "\<dots> \<le> 10 ^ nat (- x) * 2 ^ 1023" using pos by (intro mult_right_mono) simp_all
    finally show ?thesis using False assms(2) round_double_finite[OF pos] by (simp add: scale10_def)
  qed
qed

lemma digits_fold_bound:
  "list_all is_digit_ascii ds \<Longrightarrow>
   foldl (\<lambda>a c. 10 * a + (c - 48)) a ds < (a + 1) * 10 ^ length ds"
proof (induction ds arbitrary: a)
  case Nil
  then show ?case by simp
next
  case (Cons c ds)
  from Cons.prems have c: "c - 48 \<le> 9" by (auto simp: is_digit_ascii_def)
  have "foldl (\<lambda>a c. 10 * a + (c - 48)) (10 * a + (c - 48)) ds
          < (10 * a + (c - 48) + 1) * 10 ^ length ds"
    using Cons by simp
  also have "\<dots> \<le> (10 * (a + 1)) * 10 ^ length ds"
    using c by (intro mult_right_mono) simp_all
  finally show ?case by (simp add: algebra_simps)
qed

lemma digits_val_bound: "list_all is_digit_ascii ds \<Longrightarrow> digits_val ds < 10 ^ length ds"
  using digits_fold_bound[of ds 0] by (simp add: digits_val_def)

lemma plain_no_exponent:
  assumes "\<forall>c\<in>set r. plain_char c" "parse_exponent r = Some e"
  shows "r = [] \<and> e = 0"
proof (cases r)
  case Nil
  then show ?thesis using assms(2) by (simp add: parse_exponent_def)
next
  case (Cons c cs)
  then have "plain_char c" using assms(1) by simp
  then have "c \<noteq> 101" "c \<noteq> 69" by (auto simp: plain_char_def is_digit_ascii_def)
  then show ?thesis using assms(2) Cons by (simp add: parse_exponent_def)
qed

lemma parse_unsigned_bound:
  assumes "\<forall>c\<in>set C. plain_char c" "parse_unsigned C = Some (n, x)"
  shows "x \<le> 0 \<and> n < 10 ^ length C"
proof -
  define ip where "ip = takeWhile is_digit_ascii C"
  define r1 where "r1 = dropWhile is_digit_ascii C"
  define fp where "fp = (case r1 of [] \<Rightarrow> [] | c # cs \<Rightarrow> if c = 46 then takeWhile is_digit_ascii cs else [])"
  define r2 where "r2 = (case r1 of [] \<Rightarrow> [] | c # cs \<Rightarrow> if c = 46 then dropWhile is_digit_ascii cs else r1)"
  have C: "C = ip @ r1" by (simp add: ip_def r1_def)
  have r2sub: "set r2 \<subseteq> set C"
  proof (cases r1)
    case Nil
    then show ?thesis by (simp add: r2_def)
  next
    case (Cons c cs)
    have "set (dropWhile is_digit_ascii cs) \<subseteq> set cs" using set_dropWhileD by fastforce
    then show ?thesis using Cons C by (auto simp: r2_def)
  qed
  have fplen: "length fp \<le> length r1"
  proof (cases r1)
    case Nil
    then show ?thesis by (simp add: fp_def)
  next
    case (Cons c cs)
    have "length (takeWhile is_digit_ascii cs) \<le> length cs" by (rule length_takeWhile_le)
    then show ?thesis using Cons by (simp add: fp_def)
  qed
  have fpd: "list_all is_digit_ascii fp"
  proof (cases r1)
    case Nil
    then show ?thesis by (simp add: fp_def)
  next
    case (Cons c cs)
    then show ?thesis by (auto simp: fp_def list_all_iff dest: set_takeWhileD)
  qed
  have ipd: "list_all is_digit_ascii ip"
    by (auto simp: ip_def list_all_iff dest: set_takeWhileD)
  from assms(2) obtain e where e: "parse_exponent r2 = Some e"
    "n = digits_val (ip @ fp)" "x = e - int (length fp)"
    unfolding parse_unsigned_def Let_def ip_def[symmetric] r1_def[symmetric]
      fp_def[symmetric] r2_def[symmetric]
    by (auto split: if_splits option.splits)
  have "e = 0" using plain_no_exponent[OF _ e(1)] assms(1) r2sub by blast
  then have x: "x \<le> 0" using e(3) by simp
  have "n < 10 ^ length (ip @ fp)" unfolding e(2)
    by (rule digits_val_bound) (use ipd fpd in simp)
  also have "\<dots> \<le> 10 ^ length C" using fplen C by (intro power_increasing) simp_all
  finally show ?thesis using x by simp
qed

lemma strip_underscores_length:
  "strip_underscores prev t = Some t' \<Longrightarrow> length t' \<le> length t"
proof (induction t arbitrary: prev t')
  case Nil
  then show ?case by (auto split: if_splits)
next
  case (Cons c t)
  show ?case
  proof (cases "c = 95")
    case True
    then have "strip_underscores c t = Some t'" using Cons.prems by (auto split: if_splits)
    then show ?thesis using Cons.IH by fastforce
  next
    case False
    then obtain t2 where "strip_underscores c t = Some t2" "t' = c # t2"
      using Cons.prems by (auto split: if_splits)
    then show ?thesis using Cons.IH by fastforce
  qed
qed

lemma strip_c_length: "length (strip_c t) \<le> length t"
proof -
  have "length (strip_c t) \<le> length (dropWhile is_space_c t)"
    unfolding strip_c_def using length_dropWhile_le[of is_space_c "rev (dropWhile is_space_c t)"]
    by simp
  then show ?thesis using length_dropWhile_le[of is_space_c t] by linarith
qed

lemma py_float_plain_bound:
  assumes "\<forall>c\<in>set s. is_digit u c \<or> c = 46" "py_float u s = Inr v"
  shows "\<exists>n x. v = scale10 n x \<and> x \<le> 0 \<and> n < 10 ^ length s"
proof (cases "strip_underscores 0 (strip_c (map (to_ascii u) s))")
  case None
  then show ?thesis using assms(2) by (simp add: py_float_def)
next
  case (Some t)
  have "\<forall>c\<in>set (map (to_ascii u) s). plain_char c"
    using assms(1) to_ascii_money by (auto simp: plain_char_def)
  then have "\<forall>c\<in>set (strip_c (map (to_ascii u) s)). plain_char c"
    using strip_c_subset by blast
  then have pl: "\<forall>c\<in>set t. plain_char c"
    using strip_underscores_subset[OF Some] by blast
  have len: "length t \<le> length s"
    using strip_underscores_length[OF Some] strip_c_length[of "map (to_ascii u) s"] by simp
  have sign: "split_sign t = (False, t)"
  proof (cases t)
    case Nil
    then show ?thesis by (simp add: split_sign_def)
  next
    case (Cons c t')
    then have "plain_char c" using pl by simp
    then have "c \<noteq> 45" "c \<noteq> 43" by (auto simp: plain_char_def is_digit_ascii_def)
    then show ?thesis using Cons by (simp add: split_sign_def)
  qed
  have no_word: "\<not> lower_eq t ''inf''" "\<not> lower_eq t ''infinity''" "\<not> lower_eq t ''nan''"
  proof -
    have ne: "lower_eq t w \<Longrightarrow> w \<noteq> [] \<Longrightarrow> t \<noteq> []" for w
      by (auto simp: lower_eq_def str_def)
    show "\<not> lower_eq t ''inf''"
      using plain_not_word[OF pl, of "''inf''"] ne[of "''inf''"]
      by (auto simp: plain_char_def is_digit_ascii_def)
    show "\<not> lower_eq t ''infinity''"
      using plain_not_word[OF pl, of "''infinity''"] ne[of "''infinity''"]
      by (auto simp: plain_char_def is_digit_ascii_def)
    show "\<not> lower_eq t ''nan''"
      using plain_not_word[OF pl, of "''nan''"] ne[of "''nan''"]
      by (auto simp: plain_char_def is_digit_ascii_def)
  qed
  from assms(2) obtain n x where nx: "parse_unsigned t = Some (n, x)" "v = scale10 n x"
    using Some sign no_word by (auto simp: py_float_def split: option.splits)
  have "x \<le> 0 \<and> n < 10 ^ length t" using parse_unsigned_bound[OF pl nx(1)] .
  moreover have "(10::nat) ^ length t \<le> 10 ^ length s" using len by (intro power_increasing) simp_all
  ultimately have "v = scale10 n x \<and> x \<le> 0 \<and> n < 10 ^ length s" using nx(2) by linarith
  then show ?thesis by blast
qed

lemma py_float_money_finite:
  assumes "money_text u t" "length t \<le> 300" "py_float u (replace_commas t) = Inr v"
  shows "is_finite v"
proof -
  obtain n x where nx: "v = scale10 n x" "x \<le> 0" "n < 10 ^ length (replace_commas t)"
    using py_float_plain_bound[OF replace_commas_money[OF assms(1)] assms(3)] by blast
  have "length (replace_commas t) \<le> 300"
    unfolding replace_commas_def by (rule le_trans[OF length_filter_le assms(2)])
  then have "(10::nat) ^ length (replace_commas t) \<le> 10 ^ 300" by (intro power_increasing) simp_all
  then have "n < 10 ^ 300" using nx(3) by linarith
  then show ?thesis using nx scale10_finite by simp
qed

lemma runs_group_length:
  assumes "(p', s', g') \<in> set (runs u ic r (p, s, g))" "length s \<le> N"
    "\<forall>t. g = Some t \<longrightarrow> length t \<le> N"
  shows "\<forall>t. g' = Some t \<longrightarrow> length t \<le> N"
  using assms
proof (induction r arbitrary: p s g p' s' g')
  case Eps
  from Eps.prems(1) have "g' = g" by (simp add: in_runs_Eps)
  then show ?case using Eps.prems(3) by simp
next
  case (Atom cs)
  from Atom.prems(1) have "g' = g" unfolding in_runs_Atom by (elim exE conjE)
  then show ?case using Atom.prems(3) by simp
next
  case (Seq r1 r2)
  from Seq.prems(1) obtain st1 where st1: "st1 \<in> set (runs u ic r1 (p, s, g))"
    "(p', s', g') \<in> set (runs u ic r2 st1)"
    unfolding in_runs_Seq by (elim exE conjE)
  obtain p1 s1 g1 where eq: "st1 = (p1, s1, g1)" by (cases st1) auto
  have a: "(p1, s1, g1) \<in> set (runs u ic r1 (p, s, g))" using st1(1) by (simp add: eq)
  have b: "(p', s', g') \<in> set (runs u ic r2 (p1, s1, g1))" using st1(2) by (simp add: eq)
  obtain w where "s = w @ s1" using runs_suffix[OF a] by (elim exE conjE)
  then have l1: "length s1 \<le> N" using Seq.prems(2) by simp
  have g1: "\<forall>t. g1 = Some t \<longrightarrow> length t \<le> N"
    by (rule Seq.IH(1)[OF a Seq.prems(2,3)])
  show ?case by (rule Seq.IH(2)[OF b l1 g1])
next
  case (Alt r1 r2)
  from Alt.prems(1) have "(p', s', g') \<in> set (runs u ic r1 (p, s, g))
      \<or> (p', s', g') \<in> set (runs u ic r2 (p, s, g))" by (simp add: in_runs_Alt)
  then show ?case
  proof
    assume h: "(p', s', g') \<in> set (runs u ic r1 (p, s, g))"
    show ?thesis by (rule Alt.IH(1)[OF h Alt.prems(2,3)])
  next
    assume h: "(p', s', g') \<in> set (runs u ic r2 (p, s, g))"
    show ?thesis by (rule Alt.IH(2)[OF h Alt.prems(2,3)])
  qed
next
  case (Opt r)
  from Opt.prems(1) have "(p', s', g') \<in> set (runs u ic r (p, s, g)) \<or> (p', s', g') = (p, s, g)"
    by (simp add: in_runs_Opt)
  then show ?case
  proof
    assume h: "(p', s', g') \<in> set (runs u ic r (p, s, g))"
    show ?thesis by (rule Opt.IH[OF h Opt.prems(2,3)])
  next
    assume "(p', s', g') = (p, s, g)"
    then show ?thesis using Opt.prems(3) by simp
  qed
next
  case (Rep gr lo hi cs)
  from Rep.prems(1) have "g' = g" unfolding in_runs_Rep by (elim exE conjE)
  then show ?case using Rep.prems(3) by simp
next
  case (Group r)
  from Group.prems(1) obtain g0 x where "s = x @ s'" "g' = Some x"
    unfolding in_runs_Group by (elim exE conjE)
  then show ?case using Group.prems(2) by simp
next
  case WordB
  from WordB.prems(1) have "g' = g" by (simp add: in_runs_WordB)
  then show ?case using WordB.prems(3) by simp
qed

lemma money_loop_finite:
  assumes "\<forall>r\<in>set pats. captures_money u r" "money_loop u pats m = Inr (Some v)"
    "length m \<le> 300"
  shows "is_finite v"
proof -
  have "\<exists>earlier r later v'. pats = earlier @ r # later \<and> converts u r m = Some v'
           \<and> (\<forall>q\<in>set earlier. converts u q m = None) \<and> money_loop u pats m = Inr (Some v')"
    using money_loop_cases[OF assms(1), of m] assms(2) by simp
  then obtain earlier r later v' where h: "pats = earlier @ r # later" "converts u r m = Some v'"
    "money_loop u pats m = Inr (Some v')"
    by (elim exE conjE)
  have "r \<in> set (earlier @ r # later)" by simp
  then have r1: "r \<in> set pats" by (simp only: h(1)[symmetric])
  have "v' = v" using h(3) assms(2) by simp
  then have r2: "converts u r m = Some v" using h(2) by simp
  note r = r1 r2
  obtain st t where st: "re_search u True r m = Some st" "group1 st = Some t"
     "py_float u (replace_commas t) = Inr v"
    using converts_Some[OF r(2)] by blast
  obtain a b where ab: "m = a @ b" "st \<in> set (runs u True r (prev_char None a, b, None))"
    using re_search_Some[OF st(1)] by blast
  obtain p' s' g' where s3: "st = (p', s', g')" by (cases st) auto
  have "length b \<le> 300" using ab(1) assms(3) by simp
  then have "\<forall>t. g' = Some t \<longrightarrow> length t \<le> 300"
    using runs_group_length[OF ab(2)[unfolded s3], of 300] by simp
  then have len: "length t \<le> 300" using st(2) s3 by (simp add: group1_def)
  have "captures_money u r" using assms(1) r(1) by blast
  then have "\<exists>t. group1 st = Some t \<and> money_text u t"
    using ab(2) unfolding captures_money_def by blast
  then have "money_text u t" using st(2) by auto
  then show ?thesis using len st(3) by (rule py_float_money_finite)
qed

text \<open>
  C8, amended.  Whenever the amount field or the balance field of the returned record
  is present, its value is not negative and not a NaN: it is a finite double from zero
  up, or plus infinity (which \<open>float\<close> gives for a digit string too large for a
  double).  For a message of at most 300 characters it is finite.
\<close>

theorem money_fields_range:
  assumes "parse u now sender_id message = Inr r"
  shows "(\<forall>v. amount r = Some v \<longrightarrow> non_negative v \<and> (length message \<le> 300 \<longrightarrow> is_finite v))
       \<and> (\<forall>v. balance r = Some v \<longrightarrow> non_negative v \<and> (length message \<le> 300 \<longrightarrow> is_finite v))"
proof -
  obtain a where a: "extract_amount u message = Inr a" "\<forall>v. a = Some v \<longrightarrow> non_negative v"
    using extract_amount_total by blast
  obtain b where b: "extract_balance u message = Inr b" "\<forall>v. b = Some v \<longrightarrow> non_negative v"
    using extract_balance_total by blast
  have r: "amount r = a" "balance r = b"
    using assms a(1) b(1) by (auto simp: parse_def Let_def split: sum.splits)
  have fa: "is_finite v" if "a = Some v" "length message \<le> 300" for v
    using money_loop_finite[OF amount_patterns_money, of u message v] a(1) that
    by (simp add: extract_amount_def)
  have fb: "is_finite v" if "b = Some v" "length message \<le> 300" for v
    using money_loop_finite[OF balance_patterns_money, of u message v] b(1) that
    by (simp add: extract_balance_def)
  show ?thesis using r a(2) b(2) fa fb by blast
qed

theorem money_fields_range_witness:
  "parse ascii_db 0 (str ''MPESA'') sent_message =
     Inr \<lparr> sender = str ''MPESA'', raw_message = sent_message, transaction_type = SENT,
           amount = Some (Finite 500), transaction_code = Some (str ''RK12AB34CD''),
           balance = Some (Finite (2714826150374277 / 2199023255552)),
           recipient = None, timestamp = 0, parsed_successfully = True \<rparr>
   \<and> length sent_message \<le> 300
   \<and> non_negative (Finite 500) \<and> is_finite (Finite 500)
   \<and> non_negative (Finite (2714826150374277 / 2199023255552))
   \<and> is_finite (Finite (2714826150374277 / 2199023255552))"
proof -
  have len: "length sent_message \<le> 300" by (simp add: sent_message_def str_def)
  show ?thesis
    using money_fields_range[OF parse_sent[of ascii_db 0 "str ''MPESA''"]] len
      parse_sent[of ascii_db 0 "str ''MPESA''"]
    by simp
qed

end
